theory Spec2Isabelle
  imports Main "HOL-Library.Sublist"
begin

section \<open>Characters, digits and slots\<close>

text \<open>
  The source is \<^verbatim>\<open>src/index.tsx\<close>. JavaScript strings are modelled as \<open>string\<close>
  (a list of \<open>char\<close>); the mask templates, dial codes and formatted numbers of the
  component are ASCII, where code points, UTF-16 units and \<open>char\<close>s coincide.

  \<^verbatim>\<open>\d\<close> of a JavaScript regular expression (no unicode flag) is exactly \<^verbatim>\<open>[0-9]\<close>,
  and \<^verbatim>\<open>\D\<close> is its complement.
\<close>

definition isDigit :: "char \<Rightarrow> bool" where
  "isDigit c \<longleftrightarrow> c \<in> set ''0123456789''"

text \<open>\<^verbatim>\<open>const slots = new Set(".")\<close>: the set of the characters of the string ".".\<close>

definition slots :: "char set" where
  "slots = set ''.''"

section \<open>The mask formatter\<close>

text \<open>
  \<^verbatim>\<open>
  const cleanInput = (input: any, pattern: string) => {
      input = input.match(/\d/g) || [];
      return Array.from(pattern, c => input[0] === c || slots.has(c) ? input.shift() || c : c);
  }
  \<close>
  The callback mutates the queue \<open>input\<close> while \<open>Array.from\<close> walks the pattern from
  left to right, so the walk is a recursion that threads the queue. \<open>input.shift()\<close> on an
  empty queue is \<open>undefined\<close>, which is falsy, so the template character is kept; a
  dequeued digit is a non-empty string, hence truthy.
\<close>

fun cleanWalk :: "char list \<Rightarrow> string \<Rightarrow> char list" where
  "cleanWalk input [] = []"
| "cleanWalk input (c # cs) =
     (if (input \<noteq> [] \<and> hd input = c) \<or> c \<in> slots
      then (case input of
              [] \<Rightarrow> c # cleanWalk [] cs
            | d # ds \<Rightarrow> d # cleanWalk ds cs)
      else c # cleanWalk input cs)"

definition cleanInput :: "string \<Rightarrow> string \<Rightarrow> char list" where
  "cleanInput input pattern = cleanWalk (filter isDigit input) pattern"

section \<open>The country matcher\<close>

text \<open>
  A row of \<^verbatim>\<open>countries.json\<close> is a tuple read by position: \<open>c[0]\<close> is the ISO code,
  \<open>c[1]\<close> the name, \<open>c[3]\<close> the dial code and \<open>c[4]\<close> the mask (see the destructuring
  \<^verbatim>\<open>[iso, name, _, dial, mask]\<close>); \<open>c[2]\<close> is not read by the code modelled here.
  The table itself is data outside the source file, so every function takes the
  list of rows as its argument, as the source does with \<open>countriesList\<close>.
\<close>

record country =
  iso :: string
  name :: string
  decorative :: string
  dial :: string
  mask :: string

text \<open>
  \<^verbatim>\<open>
  const getMetadata = (rawValue, countriesList = countries, country = null) => {
      return countriesList.find((c) => rawValue.startsWith(c[3]) && (country == null || country === c[0]));
  }
  \<close>
  The pin \<open>country\<close> is \<open>null\<close> or a string: \<open>string option\<close>.
\<close>

definition getMetadata :: "string \<Rightarrow> country list \<Rightarrow> string option \<Rightarrow> country option" where
  "getMetadata rawValue countriesList pin =
     find (\<lambda>c. prefix (dial c) rawValue \<and> (pin = None \<or> pin = Some (iso c))) countriesList"

text \<open>
  \<^verbatim>\<open>
  const clean = useCallback((input: any) => {
      return cleanInput(input, pattern.replaceAll(/\d/g, "."));
  }, [pattern])
  \<close>
  The closure variable \<open>pattern\<close> (the mask of the current country) is the first argument.
\<close>

definition dotDigits :: "string \<Rightarrow> string" where
  "dotDigits pattern = map (\<lambda>c. if isDigit c then CHR ''.'' else c) pattern"

definition clean :: "string \<Rightarrow> string \<Rightarrow> char list" where
  "clean pattern input = cleanInput input (dotDigits pattern)"

text \<open>The number of slot markers of a template (used to state properties only).\<close>

definition nslots :: "string \<Rightarrow> nat" where
  "nslots t = length (filter (\<lambda>c. c \<in> slots) t)"

section \<open>Display trimming\<close>

text \<open>
  \<^verbatim>\<open>
  const displayFormat = (value: string) => {
      return value.replace(/[.\s\D]+$/, "").replace(/(\(\d+)$/, "$1)");
  }
  \<close>
  The class \<^verbatim>\<open>[.\s\D]\<close> is every character that is not a digit (a dot and white space
  are not digits), so the first replacement deletes the longest run of non-digits at the
  end of the string. The second one matches when the string ends with an opening
  parenthesis followed by one or more digits, and then appends a closing parenthesis.
\<close>

definition dropTrailing :: "string \<Rightarrow> string" where
  "dropTrailing s = rev (dropWhile (\<lambda>c. \<not> isDigit c) (rev s))"

definition closeParen :: "string \<Rightarrow> string" where
  "closeParen s =
     (if takeWhile isDigit (rev s) \<noteq> [] \<and>
         (case dropWhile isDigit (rev s) of [] \<Rightarrow> False | c # _ \<Rightarrow> c = CHR ''('')
      then s @ '')'' else s)"

definition displayFormat :: "string \<Rightarrow> string" where
  "displayFormat v = closeParen (dropTrailing v)"

section \<open>Numbers and their decimal text\<close>

text \<open>
  A JavaScript number that \<open>parseInt\<close> returns for a run of decimal digits is modelled as
  a \<open>nat\<close>. This is exact below \<open>2 ^ 53\<close> (a run of at most 15 digits); beyond that the
  source rounds to a double, which is outside this model, and the statements below that
  depend on the value of such a number carry that bound.

  \<open>showNat\<close> is the text of a number in a template literal or in \<open>Array.join\<close>;
  \<open>parseInt\<close> is applied by the source only to a match of \<^verbatim>\<open>/\+\d+/\<close> or of the group of
  \<^verbatim>\<open>/\((\d+)\)/\<close>, that is to an optional plus sign followed by digits.
\<close>

definition digitChar :: "nat \<Rightarrow> char" where
  "digitChar n = ''0123456789'' ! (n mod 10)"

fun showNat :: "nat \<Rightarrow> string" where
  "showNat n = (if n < 10 then [digitChar n] else showNat (n div 10) @ [digitChar (n mod 10)])"

declare showNat.simps [simp del]

definition digitVal :: "char \<Rightarrow> nat" where
  "digitVal c = of_char c - 48"

definition parseInt :: "string \<Rightarrow> nat" where
  "parseInt s =
     foldl (\<lambda>a c. 10 * a + digitVal c) 0
       (takeWhile isDigit (case s of [] \<Rightarrow> [] | c # cs \<Rightarrow> if c = CHR ''+'' then cs else s))"

section \<open>The phone number parser\<close>

text \<open>
  The result type \<open>PhoneNumber\<close> of \<^verbatim>\<open>./types\<close>: every field is nullable.
\<close>

record PhoneNumber =
  countryCode :: "nat option"
  areaCode :: "nat option"
  phoneNumber :: "string option"
  isoCode :: "string option"

text \<open>
  \<^verbatim>\<open>
  const getRawValue = (value: PhoneNumber | string) => {
      if (typeof value === "string") {
          return value.replaceAll(/\D/g, "");
      }
      return [value?.countryCode, value?.areaCode, value?.phoneNumber].filter(Boolean).join("");
  }
  \<close>
  \<open>filter(Boolean)\<close> drops \<open>null\<close>, the number 0 and the empty string.
\<close>

datatype rawArg = Str string | Obj PhoneNumber

fun getRawValue :: "rawArg \<Rightarrow> string" where
  "getRawValue (Str v) = filter isDigit v"
| "getRawValue (Obj v) =
     (case countryCode v of None \<Rightarrow> [] | Some n \<Rightarrow> if n = 0 then [] else showNat n) @
     (case areaCode v of None \<Rightarrow> [] | Some n \<Rightarrow> if n = 0 then [] else showNat n) @
     (case phoneNumber v of None \<Rightarrow> [] | Some p \<Rightarrow> p)"

text \<open>
  \<^verbatim>\<open>formattedNumber.match(/\+\d+/)\<close>: the leftmost plus sign that is followed by a digit,
  with the longest run of digits after it. The result is the whole match.
\<close>

fun countryCodeMatch :: "string \<Rightarrow> string option" where
  "countryCodeMatch [] = None"
| "countryCodeMatch (c # cs) =
     (if c = CHR ''+'' \<and> takeWhile isDigit cs \<noteq> [] then Some (c # takeWhile isDigit cs)
      else countryCodeMatch cs)"

text \<open>
  \<^verbatim>\<open>formattedNumber.match(/\((\d+)\)/)\<close>: the leftmost opening parenthesis followed by one or
  more digits and a closing parenthesis. A shorter run of digits is followed by a digit, so
  backtracking finds nothing that the longest run does not. The result is group 1.
\<close>

fun areaCodeMatch :: "string \<Rightarrow> string option" where
  "areaCodeMatch [] = None"
| "areaCodeMatch (c # cs) =
     (if c = CHR ''('' \<and> takeWhile isDigit cs \<noteq> [] \<and>
         (case dropWhile isDigit cs of [] \<Rightarrow> False | e # _ \<Rightarrow> e = CHR '')'')
      then Some (takeWhile isDigit cs)
      else areaCodeMatch cs)"

text \<open>
  \<^verbatim>\<open>new RegExp(`^${countryCode}${(areaCode || "")}(\\d+)`)\<close>: the text before the group is
  the decimal text of the country code, or \<open>null\<close> for a missing one, followed by the
  decimal text of the area code unless it is \<open>null\<close> or 0. None of these characters is
  special in a regular expression, so the pattern matches when the subject starts with that
  text and has at least one digit after it; group 1 is the longest run of digits there.
\<close>

definition phoneNumberPrefix :: "nat option \<Rightarrow> nat option \<Rightarrow> string" where
  "phoneNumberPrefix cc ac =
     (case cc of None \<Rightarrow> ''null'' | Some n \<Rightarrow> showNat n) @
     (case ac of None \<Rightarrow> [] | Some a \<Rightarrow> if a = 0 then [] else showNat a)"

definition phoneNumberMatch :: "string \<Rightarrow> string \<Rightarrow> string option" where
  "phoneNumberMatch pre v =
     (if v \<noteq> [] \<and> prefix pre v \<and> takeWhile isDigit (drop (length pre) v) \<noteq> []
      then Some (takeWhile isDigit (drop (length pre) v)) else None)"

text \<open>
  \<^verbatim>\<open>
  const parsePhoneNumber = (formattedNumber, countriesList = countries, country = null) => {
      const value = getRawValue(formattedNumber);
      const isoCode = getMetadata(value, countriesList, country)?.[0];
      ...
      const countryCode = countryCodeMatch.length > 0 ? parseInt(countryCodeMatch[0]) : null;
      const areaCode = areaCodeMatch.length > 1 ? parseInt(areaCodeMatch[1]) : null;
      ...
      const phoneNumber = phoneNumberMatch.length > 1 ? phoneNumberMatch[1] : null;
      return {countryCode, areaCode, phoneNumber, isoCode};
  }
  \<close>
\<close>

definition parsePhoneNumber :: "string \<Rightarrow> country list \<Rightarrow> string option \<Rightarrow> PhoneNumber" where
  "parsePhoneNumber formattedNumber countriesList pin =
     (let v = getRawValue (Str formattedNumber);
          cc = map_option parseInt (countryCodeMatch formattedNumber);
          ac = map_option parseInt (areaCodeMatch formattedNumber)
      in \<lparr>countryCode = cc,
          areaCode = ac,
          phoneNumber = phoneNumberMatch (phoneNumberPrefix cc ac) v,
          isoCode = map_option iso (getMetadata v countriesList pin)\<rparr>)"

section \<open>The validator\<close>

text \<open>
  \<^verbatim>\<open>validations.json\<close> maps an ISO code to a pair of regular expression sources,
  \<open>[lenient, strict]\<close>. The table is outside the source file and is an argument here. A
  pattern is kept as its syntax tree; the fragment below (characters, \<^verbatim>\<open>\d\<close>, character
  sets, the anchors \<^verbatim>\<open>^\<close> and \<^verbatim>\<open>$\<close>, sequence, alternative and iteration) is what patterns
  over digit strings are made of.
\<close>

datatype regex =
    Eps
  | Lit char
  | AnyDigit
  | OneOf "char list"
  | Bol
  | Eol
  | Seq regex regex
  | Alt regex regex
  | Star regex

text \<open>
  \<open>ends r s i\<close> lists the positions where a match of \<open>r\<close> that starts at position \<open>i\<close>
  of the subject \<open>s\<close> can end. An iteration is closed under one more round
  \<open>length s + 1\<close> times, which reaches every position of the subject.
\<close>

primrec ends :: "regex \<Rightarrow> string \<Rightarrow> nat \<Rightarrow> nat list" where
  "ends Eps s i = [i]"
| "ends (Lit c) s i = (if i < length s \<and> s ! i = c then [Suc i] else [])"
| "ends AnyDigit s i = (if i < length s \<and> isDigit (s ! i) then [Suc i] else [])"
| "ends (OneOf cs) s i = (if i < length s \<and> s ! i \<in> set cs then [Suc i] else [])"
| "ends Bol s i = (if i = 0 then [i] else [])"
| "ends Eol s i = (if i = length s then [i] else [])"
| "ends (Seq a b) s i = concat (map (ends b s) (ends a s i))"
| "ends (Alt a b) s i = ends a s i @ ends b s i"
| "ends (Star a) s i =
     ((\<lambda>js. remdups (js @ concat (map (ends a s) js))) ^^ Suc (length s)) [i]"

text \<open>
  \<^verbatim>\<open>new RegExp(pattern).test(str)\<close> searches: it is true when the pattern matches
  starting at some position of the subject. \<open>fullMatch\<close>, which the source does not
  use, is the other reading: the pattern matches the subject from its first to its last
  character.
\<close>

definition test :: "regex \<Rightarrow> string \<Rightarrow> bool" where
  "test r s \<longleftrightarrow> list_ex (\<lambda>i. ends r s i \<noteq> []) [0..<Suc (length s)]"

definition fullMatch :: "regex \<Rightarrow> string \<Rightarrow> bool" where
  "fullMatch r s \<longleftrightarrow> length s \<in> set (ends r s 0)"

text \<open>
  \<^verbatim>\<open>
  const checkValidity = (metadata: PhoneNumber, strict: boolean = false) => {
      const pattern = (validations as any)[metadata.isoCode as keyof typeof validations][Number(strict)];
      return new RegExp(pattern).test([metadata.areaCode, metadata.phoneNumber].filter(Boolean).join(""));
  }
  \<close>
  The table is a plain object, so \<open>validations[key]\<close> reads an own property (an entry of
  the JSON file) or else a property inherited from \<open>Object.prototype\<close>. A missing ISO code
  is the key \<open>undefined\<close>. With no property at all the value is \<open>undefined\<close>, and
  reading its index throws a \<open>TypeError\<close>. An inherited property is a function, or for
  \<open>__proto__\<close> the prototype itself; its index 0 or 1 is \<open>undefined\<close>,
  \<open>new RegExp(undefined)\<close> is the empty pattern, and the test is true.

  \<open>filter(Boolean)\<close> drops \<open>null\<close>, the number 0 and the empty string, and \<open>join\<close>
  writes a number as its decimal text; as said above, this text is the one of the source for
  an area code below \<open>2 ^ 53\<close>.
\<close>

datatype error = TypeError

type_synonym validations = "string \<rightharpoonup> regex \<times> regex"

definition objectPrototypeNames :: "string list" where
  "objectPrototypeNames =
     [''constructor'', ''__defineGetter__'', ''__defineSetter__'', ''hasOwnProperty'',
      ''__lookupGetter__'', ''__lookupSetter__'', ''isPrototypeOf'', ''propertyIsEnumerable'',
      ''toString'', ''valueOf'', ''__proto__'', ''toLocaleString'']"

definition validatedDigits :: "PhoneNumber \<Rightarrow> string" where
  "validatedDigits metadata =
     (case areaCode metadata of None \<Rightarrow> [] | Some a \<Rightarrow> if a = 0 then [] else showNat a) @
     (case phoneNumber metadata of None \<Rightarrow> [] | Some p \<Rightarrow> p)"

definition checkValidity :: "validations \<Rightarrow> PhoneNumber \<Rightarrow> bool \<Rightarrow> error + bool" where
  "checkValidity table metadata strict =
     (let k = (case isoCode metadata of None \<Rightarrow> ''undefined'' | Some c \<Rightarrow> c) in
      case table k of
        Some entry \<Rightarrow>
          Inr (test (if strict then snd entry else fst entry) (validatedDigits metadata))
      | None \<Rightarrow> if k \<in> set objectPrototypeNames then Inr True else Inl TypeError)"

section \<open>The cursor tracker\<close>

text \<open>
  \<open>Array.prototype.findIndex\<close>: the index of the first element that satisfies the
  predicate, and \<open>-1\<close> when there is none.
\<close>

definition findIndex :: "('a \<Rightarrow> bool) \<Rightarrow> 'a list \<Rightarrow> int" where
  "findIndex P xs = (if list_ex P xs then int (length (takeWhile (\<lambda>x. \<not> P x) xs)) else - 1)"

text \<open>Reading \<open>xs[k]\<close>: \<open>undefined\<close> outside the array.\<close>

definition at :: "'a list \<Rightarrow> int \<Rightarrow> 'a option" where
  "at xs k = (if 0 \<le> k \<and> k < int (length xs) then Some (xs ! nat k) else None)"

text \<open>
  \<^verbatim>\<open>
  const first = useMemo(() => {
      return [...pattern].findIndex(c => slots.has(c));
  }, [pattern])

  const prev = useMemo((j = 0) => {
      return Array.from(pattern.replaceAll(/\d/g, "."), (c, i) => {
          return slots.has(c) ? j = i + 1 : j;
      });
  }, [pattern])
  \<close>
  \<open>first\<close> reads the mask as it is; \<open>prev\<close> reads it with its digits replaced by dots.
  \<open>prevWalk j i\<close> is the walk of \<open>Array.from\<close> with the variable \<open>j\<close> and the index \<open>i\<close>.
\<close>

definition first :: "string \<Rightarrow> int" where
  "first pattern = findIndex (\<lambda>c. c \<in> slots) pattern"

fun prevWalk :: "nat \<Rightarrow> nat \<Rightarrow> string \<Rightarrow> nat list" where
  "prevWalk j i [] = []"
| "prevWalk j i (c # cs) =
     (if c \<in> slots then Suc i # prevWalk (Suc i) (Suc i) cs else j # prevWalk j (Suc i) cs)"

definition prev :: "string \<Rightarrow> nat list" where
  "prev pattern = prevWalk 0 0 (dotDigits pattern)"

text \<open>
  \<^verbatim>\<open>
  const format = useCallback(({target}: ChangeEvent<HTMLInputElement>) => {
      const [i, j] = [target.selectionStart, target.selectionEnd].map((i: any) => {
          i = clean(target.value.slice(0, i)).findIndex(c => slots.has(c));
          return i < 0 ? prev[prev.length - 1] : backRef.current ? prev[i - 1] || first : i;
      });
      target.value = displayFormat(clean(target.value).join(""));
      target.setSelectionRange(i, j);
      backRef.current = false;
      setValue(target.value);
  }, [clean, first, prev])
  \<close>
  \<open>caret\<close> is the callback of \<open>map\<close>; its result is a number or \<open>undefined\<close>
  (\<open>None\<close>). \<open>x || first\<close> takes \<open>first\<close> when \<open>x\<close> is \<open>undefined\<close> or 0.
  The state the handler reads and writes is the input element's value and selection and the
  flag \<open>backRef\<close>; the arguments of \<open>setSelectionRange\<close> are recorded as they are passed.
\<close>

definition caret :: "string \<Rightarrow> bool \<Rightarrow> string \<Rightarrow> nat \<Rightarrow> int option" where
  "caret pattern back v sel =
     (let i = findIndex (\<lambda>c. c \<in> slots) (clean pattern (take sel v)) in
      if i < 0 then map_option int (at (prev pattern) (int (length (prev pattern)) - 1))
      else if back then
        (case at (prev pattern) (i - 1) of
           None \<Rightarrow> Some (first pattern)
         | Some p \<Rightarrow> if p = 0 then Some (first pattern) else Some (int p))
      else Some i)"

record target =
  target_value :: string
  selectionStart :: nat
  selectionEnd :: nat
  backRef :: bool

record formatted =
  new_value :: string
  rangeStart :: "int option"
  rangeEnd :: "int option"
  new_backRef :: bool

definition format :: "string \<Rightarrow> target \<Rightarrow> formatted" where
  "format pattern t =
     \<lparr>new_value = displayFormat (clean pattern (target_value t)),
      rangeStart = caret pattern (backRef t) (target_value t) (selectionStart t),
      rangeEnd = caret pattern (backRef t) (target_value t) (selectionEnd t),
      new_backRef = False\<rparr>"

section \<open>Properties of the mask formatter\<close>

lemma length_cleanWalk: "length (cleanWalk q t) = length t"
  by (induction t arbitrary: q) (auto split: list.splits)

lemma cleanWalk_nth:
  "i < length t \<Longrightarrow>
     (t ! i \<in> slots \<longrightarrow> cleanWalk q t ! i \<in> set q \<or> cleanWalk q t ! i = t ! i) \<and>
     (t ! i \<notin> slots \<longrightarrow> cleanWalk q t ! i = t ! i)"
proof (induction t arbitrary: q i)
  case Nil
  then show ?case by simp
next
  case (Cons c cs)
  show ?case
  proof (cases i)
    case 0
    then show ?thesis by (cases q) auto
  next
    case (Suc j)
    with Cons.prems have j: "j < length cs" by simp
    show ?thesis
    proof (cases q)
      case Nil
      with Suc Cons.IH [OF j, of "[]"] show ?thesis by auto
    next
      case (Cons d ds)
      with Suc Cons.IH [OF j, of ds] Cons.IH [OF j, of q] show ?thesis by auto
    qed
  qed
qed

text \<open>
  The digit a position dequeues. \<open>c i\<close> counts the digits that the walk has taken from
  the queue before position \<open>i\<close>: a position takes the next digit when the queue is not
  used up and the template has a slot there or the very digit that is next in the queue.
\<close>

lemma cleanWalk_dequeue:
  "\<exists>c. c 0 = (0::nat) \<and>
     (\<forall>i<length t.
        c (Suc i) = (if c i < length q \<and> (t ! i \<in> slots \<or> q ! c i = t ! i) then Suc (c i) else c i) \<and>
        cleanWalk q t ! i = (if t ! i \<in> slots \<and> c i < length q then q ! c i else t ! i))"
  (is "\<exists>c. ?P c q t")
proof (induction t arbitrary: q)
  case Nil
  define c :: "nat \<Rightarrow> nat" where "c = (\<lambda>_. 0)"
  have "?P c q []" by (simp add: c_def)
  then show ?case by - (rule exI, assumption)
next
  case (Cons a t)
  show ?case
  proof (cases q)
    case Nil
    from Cons.IH [of "[]"] obtain c' where c': "?P c' [] t" by blast
    define c where "c = (\<lambda>i. case i of 0 \<Rightarrow> 0 | Suc j \<Rightarrow> c' j)"
    from c' Nil have "?P c q (a # t)"
      by (auto simp: c_def less_Suc_eq_0_disj)
    then show ?thesis by - (rule exI, assumption)
  next
    case (Cons h r)
    show ?thesis
    proof (cases "h = a \<or> a \<in> slots")
      case True
      from Cons.IH [of r] obtain c' where c': "?P c' r t" by blast
      define c where "c = (\<lambda>i. case i of 0 \<Rightarrow> 0 | Suc j \<Rightarrow> Suc (c' j))"
      from c' Cons True have "?P c q (a # t)"
        by (auto simp: c_def less_Suc_eq_0_disj)
      then show ?thesis by - (rule exI, assumption)
    next
      case False
      from Cons.IH [of q] obtain c' where c': "?P c' q t" by blast
      define c where "c = (\<lambda>i. case i of 0 \<Rightarrow> 0 | Suc j \<Rightarrow> c' j)"
      from c' Cons False have "?P c q (a # t)"
        by (auto simp: c_def less_Suc_eq_0_disj)
      then show ?thesis by - (rule exI, assumption)
    qed
  qed
qed

text \<open>In a template without digits the slots take the digits of the queue in order.\<close>

lemma cleanWalk_slot_order:
  "\<forall>c\<in>set t. \<not> isDigit c \<Longrightarrow> \<forall>d\<in>set q. isDigit d \<Longrightarrow> i < length t \<Longrightarrow> t ! i \<in> slots \<Longrightarrow>
     cleanWalk q t ! i =
       (if nslots (take i t) < length q then q ! nslots (take i t) else t ! i)"
proof (induction t arbitrary: q i)
  case Nil
  then show ?case by simp
next
  case (Cons a t)
  show ?case
  proof (cases i)
    case 0
    with Cons.prems show ?thesis by (cases q) (auto simp: nslots_def)
  next
    case (Suc j)
    with Cons.prems have j: "j < length t" "t ! j \<in> slots" by simp_all
    from Cons.prems have nd: "\<forall>c\<in>set t. \<not> isDigit c" by simp
    show ?thesis
    proof (cases q)
      case Nil
      with Cons.IH [OF nd _ j, of "[]"] Suc show ?thesis by (simp add: nslots_def)
    next
      case (Cons h r)
      with Cons.prems have dr: "\<forall>d\<in>set r. isDigit d" and dh: "isDigit h" by simp_all
      from Cons.prems have na: "\<not> isDigit a" by simp
      with dh have "h \<noteq> a" by auto
      with Cons.IH [OF nd dr j] Cons.IH [OF nd Cons.prems(2) j] Cons Suc show ?thesis
        by (auto simp: nslots_def)
    qed
  qed
qed

text \<open>
  Claim C1. For every input \<open>x\<close> and template \<open>t\<close> the output of \<open>cleanInput\<close> has the
  length of \<open>t\<close>; a slot position holds a digit dequeued from \<open>x\<close> or the slot marker
  itself, and a literal position holds the template's character unchanged. The digit is
  the one that is next in the queue of the digits of \<open>x\<close>: with \<open>c i\<close> the number of
  digits dequeued before position \<open>i\<close>, a slot holds digit number \<open>c i\<close> of the queue while
  the queue lasts and its marker afterwards. In a template without digits \<open>c i\<close> is the
  number of slots before position \<open>i\<close>.
\<close>

theorem cleanInput_shape:
  "length (cleanInput x t) = length t \<and>
   (\<forall>i<length t.
      (t ! i \<in> slots \<longrightarrow>
         (cleanInput x t ! i \<in> set x \<and> isDigit (cleanInput x t ! i)) \<or> cleanInput x t ! i = t ! i) \<and>
      (t ! i \<notin> slots \<longrightarrow> cleanInput x t ! i = t ! i)) \<and>
   (\<exists>c. c 0 = (0::nat) \<and>
      (\<forall>i<length t.
         c (Suc i) =
           (if c i < length (filter isDigit x) \<and> (t ! i \<in> slots \<or> filter isDigit x ! c i = t ! i)
            then Suc (c i) else c i) \<and>
         cleanInput x t ! i =
           (if t ! i \<in> slots \<and> c i < length (filter isDigit x) then filter isDigit x ! c i
            else t ! i))) \<and>
   ((\<forall>c\<in>set t. \<not> isDigit c) \<longrightarrow>
      (\<forall>i<length t. t ! i \<in> slots \<longrightarrow>
         cleanInput x t ! i =
           (if nslots (take i t) < length (filter isDigit x)
            then filter isDigit x ! nslots (take i t) else t ! i)))"
proof (intro conjI)
  show "length (cleanInput x t) = length t"
    by (simp add: cleanInput_def length_cleanWalk)
  show "\<forall>i<length t.
      (t ! i \<in> slots \<longrightarrow>
         (cleanInput x t ! i \<in> set x \<and> isDigit (cleanInput x t ! i)) \<or> cleanInput x t ! i = t ! i) \<and>
      (t ! i \<notin> slots \<longrightarrow> cleanInput x t ! i = t ! i)"
    using cleanWalk_nth [of _ t "filter isDigit x"] by (auto simp: cleanInput_def)
  show "\<exists>c. c 0 = (0::nat) \<and>
      (\<forall>i<length t.
         c (Suc i) =
           (if c i < length (filter isDigit x) \<and> (t ! i \<in> slots \<or> filter isDigit x ! c i = t ! i)
            then Suc (c i) else c i) \<and>
         cleanInput x t ! i =
           (if t ! i \<in> slots \<and> c i < length (filter isDigit x) then filter isDigit x ! c i
            else t ! i))"
    unfolding cleanInput_def by (rule cleanWalk_dequeue)
  show "(\<forall>c\<in>set t. \<not> isDigit c) \<longrightarrow>
      (\<forall>i<length t. t ! i \<in> slots \<longrightarrow>
         cleanInput x t ! i =
           (if nslots (take i t) < length (filter isDigit x)
            then filter isDigit x ! nslots (take i t) else t ! i))"
  proof (intro impI allI)
    fix i
    assume "\<forall>c\<in>set t. \<not> isDigit c" "i < length t" "t ! i \<in> slots"
    moreover have "\<forall>d\<in>set (filter isDigit x). isDigit d" by simp
    ultimately show "cleanInput x t ! i =
           (if nslots (take i t) < length (filter isDigit x)
            then filter isDigit x ! nslots (take i t) else t ! i)"
      unfolding cleanInput_def by (intro cleanWalk_slot_order)
  qed
qed

theorem cleanInput_shape_witness:
  "length (cleanInput ''12a3'' ''+. (..) ..'') = length ''+. (..) ..'' \<and>
   ''+. (..) ..'' ! 5 \<in> slots \<and>
   nslots (take 5 ''+. (..) ..'') = 2 \<and>
   cleanInput ''12a3'' ''+. (..) ..'' ! 5 = filter isDigit ''12a3'' ! 2 \<and>
   cleanInput ''12a3'' ''+. (..) ..'' ! 5 = CHR ''3'' \<and>
   ''+. (..) ..'' ! 8 \<in> slots \<and>
   cleanInput ''12a3'' ''+. (..) ..'' ! 8 = ''+. (..) ..'' ! 8 \<and>
   ''+. (..) ..'' ! 6 \<notin> slots \<and>
   cleanInput ''12a3'' ''+. (..) ..'' ! 6 = ''+. (..) ..'' ! 6"
proof -
  note inst = cleanInput_shape [of "''12a3''" "''+. (..) ..''"]
  have nd: "\<forall>c\<in>set ''+. (..) ..''. \<not> isDigit c"
    by (simp add: isDigit_def)
  have n5: "nslots (take 5 ''+. (..) ..'') = 2"
    by (simp add: nslots_def slots_def)
  have ds: "filter isDigit ''12a3'' = ''123''"
    by (simp add: isDigit_def)
  have s5: "''+. (..) ..'' ! 5 \<in> slots" "(5::nat) < length ''+. (..) ..''"
    by (simp_all add: slots_def)
  from inst [THEN conjunct2, THEN conjunct2, THEN conjunct2, THEN mp, OF nd, THEN spec, THEN mp,
      OF s5(2), THEN mp, OF s5(1)]
  have five: "cleanInput ''12a3'' ''+. (..) ..'' ! 5 = filter isDigit ''12a3'' ! 2"
    by (simp add: nslots_def slots_def isDigit_def)
  from inst [THEN conjunct1]
  have len: "length (cleanInput ''12a3'' ''+. (..) ..'') = length ''+. (..) ..''" .
  have rest: "''+. (..) ..'' ! 8 \<in> slots \<and>
     cleanInput ''12a3'' ''+. (..) ..'' ! 8 = ''+. (..) ..'' ! 8 \<and>
     ''+. (..) ..'' ! 6 \<notin> slots \<and>
     cleanInput ''12a3'' ''+. (..) ..'' ! 6 = ''+. (..) ..'' ! 6"
    by (simp add: cleanInput_def isDigit_def slots_def)
  from five ds have "cleanInput ''12a3'' ''+. (..) ..'' ! 5 = CHR ''3''" by simp
  with len five n5 s5(1) rest show ?thesis by blast
qed

subsection \<open>Re-formatting the formatter's own digits\<close>

lemma slot_not_digit: "c \<in> slots \<Longrightarrow> \<not> isDigit c"
  by (auto simp: slots_def isDigit_def)

lemma digits_cleanWalk:
  "\<forall>c\<in>set t. \<not> isDigit c \<Longrightarrow> \<forall>d\<in>set q. isDigit d \<Longrightarrow>
     filter isDigit (cleanWalk q t) = take (nslots t) q"
proof (induction t arbitrary: q)
  case Nil
  then show ?case by (simp add: nslots_def)
next
  case (Cons c cs)
  then show ?case
    by (cases q) (auto simp: nslots_def)
qed

lemma cleanWalk_take:
  "\<forall>c\<in>set t. \<not> isDigit c \<Longrightarrow> \<forall>d\<in>set q. isDigit d \<Longrightarrow>
     cleanWalk (take (nslots t) q) t = cleanWalk q t"
proof (induction t arbitrary: q)
  case Nil
  then show ?case by simp
next
  case (Cons c cs)
  then show ?case
    by (cases q) (auto simp: nslots_def)
qed

text \<open>Before the first slot the walk copies the template and may only shorten the queue.\<close>

lemma cleanWalk_literals:
  "\<forall>c\<in>set l. c \<notin> slots \<Longrightarrow>
     \<exists>q'. set q' \<subseteq> set q \<and> cleanWalk q (l @ s) = l @ cleanWalk q' s"
proof (induction l arbitrary: q)
  case Nil
  then show ?case by auto
next
  case (Cons c cs)
  show ?case
  proof (cases "q \<noteq> [] \<and> hd q = c")
    case True
    then obtain ds where q: "q = c # ds" by (cases q) auto
    from Cons.IH [of ds] Cons.prems obtain q'
      where "set q' \<subseteq> set ds" "cleanWalk ds (cs @ s) = cs @ cleanWalk q' s"
      by auto
    with q show ?thesis by (intro exI [of _ q']) auto
  next
    case False
    from Cons.IH [of q] Cons.prems obtain q'
      where "set q' \<subseteq> set q" "cleanWalk q (cs @ s) = cs @ cleanWalk q' s"
      by auto
    with False Cons.prems show ?thesis by (intro exI [of _ q']) auto
  qed
qed

text \<open>A queue that starts with the literal digits of \<open>l\<close> loses exactly those on the way.\<close>

lemma cleanWalk_own_digits:
  "\<forall>c\<in>set l. c \<notin> slots \<Longrightarrow> \<forall>d\<in>set r. isDigit d \<Longrightarrow>
     cleanWalk (filter isDigit l @ r) (l @ s) = l @ cleanWalk r s"
proof (induction l)
  case Nil
  then show ?case by simp
next
  case (Cons c cs)
  let ?q = "filter isDigit cs @ r"
  from Cons.prems have dq: "\<forall>d\<in>set ?q. isDigit d" by auto
  from Cons have ih: "cleanWalk ?q (cs @ s) = cs @ cleanWalk r s" by simp
  from Cons.prems have ns: "c \<notin> slots" by simp
  show ?case
  proof (cases "isDigit c")
    case True
    with ih ns show ?thesis by simp
  next
    case False
    with dq have "?q \<noteq> [] \<Longrightarrow> hd ?q \<noteq> c"
      by (metis hd_in_set)
    with False ih ns show ?thesis by auto
  qed
qed

lemma cleanWalk_idem:
  assumes s: "\<forall>c\<in>set (dropWhile (\<lambda>c. c \<notin> slots) t). \<not> isDigit c"
    and q: "\<forall>d\<in>set q. isDigit d"
  shows "cleanWalk (filter isDigit (cleanWalk q t)) t = cleanWalk q t"
proof -
  let ?l = "takeWhile (\<lambda>c. c \<notin> slots) t"
  let ?s = "dropWhile (\<lambda>c. c \<notin> slots) t"
  have l: "\<forall>c\<in>set ?l. c \<notin> slots" by (auto dest: set_takeWhileD)
  from cleanWalk_literals [OF l, of q ?s] obtain q'
    where q': "set q' \<subseteq> set q" "cleanWalk q t = ?l @ cleanWalk q' ?s" by auto
  from q q' have dq': "\<forall>d\<in>set q'. isDigit d" by auto
  have "filter isDigit (cleanWalk q t) = filter isDigit ?l @ take (nslots ?s) q'"
    using q' digits_cleanWalk [OF s dq'] by simp
  moreover have "\<forall>d\<in>set (take (nslots ?s) q'). isDigit d"
    using dq' by (auto dest: in_set_takeD)
  ultimately have "cleanWalk (filter isDigit (cleanWalk q t)) (?l @ ?s) =
      ?l @ cleanWalk (take (nslots ?s) q') ?s"
    using cleanWalk_own_digits [OF l, of "take (nslots ?s) q'" ?s] by simp
  with cleanWalk_take [OF s dq'] q' show ?thesis by simp
qed

lemma dotDigits_no_digit: "\<forall>c\<in>set (dotDigits pattern). \<not> isDigit c"
  by (auto simp: dotDigits_def isDigit_def)

lemma clean_idem: "clean pattern (filter isDigit (clean pattern x)) = clean pattern x"
proof -
  let ?t = "dotDigits pattern"
  have "\<forall>c\<in>set (dropWhile (\<lambda>c. c \<notin> slots) ?t). \<not> isDigit c"
    using dotDigits_no_digit by (blast dest: set_dropWhileD)
  from cleanWalk_idem [OF this, of "filter isDigit x"]
  have "cleanWalk (filter isDigit (cleanWalk (filter isDigit x) ?t)) ?t =
      cleanWalk (filter isDigit x) ?t"
    by simp
  then show ?thesis by (simp add: clean_def cleanInput_def)
qed

text \<open>
  Claim C2, as stated (for every input and every template, templates with literal digits
  included, formatting the digits of the formatter's output gives that output again),
  fails: in the template \<open>.1\<close> the literal digit follows a slot. The empty input leaves
  the slot unfilled and gives \<open>.1\<close>; the digits of that output are \<open>1\<close>, which the second
  pass puts into the slot, giving \<open>11\<close>.
\<close>

theorem cleanInput_idempotent_counterexample:
  "cleanInput '''' ''.1'' = ''.1'' \<and>
   cleanInput (filter isDigit (cleanInput '''' ''.1'')) ''.1'' = ''11'' \<and>
   cleanInput (filter isDigit (cleanInput '''' ''.1'')) ''.1'' \<noteq> cleanInput '''' ''.1''"
  by (simp add: cleanInput_def isDigit_def slots_def)

text \<open>
  Claim C2, amended. Formatting the digits of the formatter's output gives that output
  again for every input and every template that has no digit from its first slot on; a
  template may have literal digits before its first slot. In particular this holds for
  \<open>clean\<close> with every mask, which replaces the digits of the mask by slots before it
  formats.
\<close>

theorem cleanInput_idempotent:
  "((\<forall>c\<in>set (dropWhile (\<lambda>c. c \<notin> slots) t). \<not> isDigit c) \<longrightarrow>
      cleanInput (filter isDigit (cleanInput x t)) t = cleanInput x t) \<and>
   clean pattern (filter isDigit (clean pattern x)) = clean pattern x"
proof (intro conjI impI)
  assume "\<forall>c\<in>set (dropWhile (\<lambda>c. c \<notin> slots) t). \<not> isDigit c"
  from cleanWalk_idem [OF this, of "filter isDigit x"]
  have "cleanWalk (filter isDigit (cleanWalk (filter isDigit x) t)) t =
      cleanWalk (filter isDigit x) t"
    by simp
  then show "cleanInput (filter isDigit (cleanInput x t)) t = cleanInput x t"
    unfolding cleanInput_def by simp
next
  show "clean pattern (filter isDigit (clean pattern x)) = clean pattern x"
    by (rule clean_idem)
qed

theorem cleanInput_idempotent_witness:
  "cleanInput ''2025'' ''+1 (...) ...-....'' = ''+1 (202) 5..-....'' \<and>
   cleanInput (filter isDigit (cleanInput ''2025'' ''+1 (...) ...-....'')) ''+1 (...) ...-....'' =
     cleanInput ''2025'' ''+1 (...) ...-....''"
proof -
  have h: "\<forall>c\<in>set (dropWhile (\<lambda>c. c \<notin> slots) ''+1 (...) ...-....''). \<not> isDigit c"
    by (simp add: slots_def isDigit_def)
  have "cleanInput ''2025'' ''+1 (...) ...-....'' = ''+1 (202) 5..-....''"
    by (simp add: cleanInput_def isDigit_def slots_def)
  with cleanInput_idempotent [of "''+1 (...) ...-....''" "''2025''"] h show ?thesis
    by blast
qed

section \<open>Properties of the country matcher\<close>

text \<open>
  Claim C3. \<open>getMetadata\<close> returns the first row, in the order of the list, whose dial
  code is a prefix of the raw digits and, when a pin is given, whose ISO code is the pin;
  it returns nothing exactly when no row qualifies. With the raw digits \<open>1416\<close>, no pin and
  a list that starts with Canada and the United States, both with the dial code \<open>1\<close>,
  the result is Canada.
\<close>

theorem getMetadata_first_match:
  "(getMetadata raw cs pin = None \<longleftrightarrow>
      (\<forall>c\<in>set cs. \<not> (prefix (dial c) raw \<and> (pin = None \<or> pin = Some (iso c))))) \<and>
   (getMetadata raw cs pin = Some r \<longleftrightarrow>
      (\<exists>i<length cs. cs ! i = r \<and>
         prefix (dial r) raw \<and> (pin = None \<or> pin = Some (iso r)) \<and>
         (\<forall>j<i. \<not> (prefix (dial (cs ! j)) raw \<and> (pin = None \<or> pin = Some (iso (cs ! j))))))) \<and>
   (dial ca = ''1'' \<longrightarrow> getMetadata ''1416'' (ca # us # rest) None = Some ca)"
proof (intro conjI)
  show "getMetadata raw cs pin = None \<longleftrightarrow>
      (\<forall>c\<in>set cs. \<not> (prefix (dial c) raw \<and> (pin = None \<or> pin = Some (iso c))))"
    unfolding getMetadata_def find_None_iff by blast
  show "getMetadata raw cs pin = Some r \<longleftrightarrow>
      (\<exists>i<length cs. cs ! i = r \<and>
         prefix (dial r) raw \<and> (pin = None \<or> pin = Some (iso r)) \<and>
         (\<forall>j<i. \<not> (prefix (dial (cs ! j)) raw \<and> (pin = None \<or> pin = Some (iso (cs ! j))))))"
    unfolding getMetadata_def find_Some_iff by blast
  show "dial ca = ''1'' \<longrightarrow> getMetadata ''1416'' (ca # us # rest) None = Some ca"
    by (simp add: getMetadata_def)
qed

theorem getMetadata_first_match_witness:
  "getMetadata ''1416''
     [\<lparr>iso = ''ca'', name = ''Canada'', decorative = '''', dial = ''1'', mask = ''+1 (...) ...-....''\<rparr>,
      \<lparr>iso = ''us'', name = ''United States'', decorative = '''', dial = ''1'', mask = ''+1 (...) ...-....''\<rparr>,
      \<lparr>iso = ''gb'', name = ''United Kingdom'', decorative = '''', dial = ''44'', mask = ''+44 .... ......''\<rparr>]
     None
   = Some \<lparr>iso = ''ca'', name = ''Canada'', decorative = '''', dial = ''1'', mask = ''+1 (...) ...-....''\<rparr>"
  using getMetadata_first_match
    [of _ _ _ _ "\<lparr>iso = ''ca'', name = ''Canada'', decorative = '''', dial = ''1'', mask = ''+1 (...) ...-....''\<rparr>"
        "\<lparr>iso = ''us'', name = ''United States'', decorative = '''', dial = ''1'', mask = ''+1 (...) ...-....''\<rparr>"
        "[\<lparr>iso = ''gb'', name = ''United Kingdom'', decorative = '''', dial = ''44'', mask = ''+44 .... ......''\<rparr>]"]
  by simp

section \<open>Properties of the validator\<close>

lemma concat_map_if: "concat (map (\<lambda>j. if P j then [j] else []) xs) = filter P xs"
  by (induction xs) auto

lemma ends_anchored:
  "ends (Seq Bol (Seq r Eol)) s i = (if i = 0 then filter (\<lambda>j. j = length s) (ends r s 0) else [])"
proof -
  have "ends Eol s = (\<lambda>j. if j = length s then [j] else [])"
    by (rule ext) simp
  then show ?thesis by (simp add: concat_map_if)
qed

text \<open>A pattern of the form \<^verbatim>\<open>^r$\<close> is found by the search exactly when \<open>r\<close> matches the
  whole subject.\<close>

lemma test_anchored: "test (Seq Bol (Seq r Eol)) s \<longleftrightarrow> fullMatch r s"
proof -
  have "test (Seq Bol (Seq r Eol)) s \<longleftrightarrow> filter (\<lambda>j. j = length s) (ends r s 0) \<noteq> []"
    unfolding test_def list_ex_iff ends_anchored by auto
  also have "\<dots> \<longleftrightarrow> length s \<in> set (ends r s 0)"
    by (auto simp: filter_empty_conv)
  finally show ?thesis by (simp add: fullMatch_def)
qed

text \<open>
  Claim C6, as stated (the chosen pattern is tested against the whole concatenation, not
  searched for), fails: \<open>RegExp.test\<close> searches. With a table whose lenient pattern for
  \<open>us\<close> is \<^verbatim>\<open>\d\d\d\<close> and the subscriber number \<open>1234\<close>, the validator answers \<open>true\<close>,
  although the pattern does not match the whole of \<open>1234\<close>.
\<close>

theorem checkValidity_full_match_counterexample:
  "checkValidity
     [''us'' \<mapsto> (Seq AnyDigit (Seq AnyDigit AnyDigit), Seq Bol (Seq (Seq AnyDigit (Seq AnyDigit AnyDigit)) Eol))]
     \<lparr>countryCode = Some 1, areaCode = None, phoneNumber = Some ''1234'', isoCode = Some ''us''\<rparr>
     False = Inr True \<and>
   \<not> fullMatch (Seq AnyDigit (Seq AnyDigit AnyDigit)) ''1234''"
  by (simp add: checkValidity_def validatedDigits_def test_def fullMatch_def isDigit_def)

text \<open>
  Claim C6, amended. For a phone number whose ISO code has an entry in the table and
  whose area code, if present, is a positive number below \<open>2 ^ 53\<close>, the validator takes the
  strict pattern when \<open>strict\<close> is true and the lenient one otherwise, concatenates the
  decimal text of the area code (if present) and the subscriber number (if present), and
  searches the concatenation for a match of the pattern. The answer is that of a match of
  the whole concatenation when the pattern is anchored at both ends, \<^verbatim>\<open>^r$\<close>.
\<close>

theorem checkValidity_search:
  "isoCode m = Some k \<and> table k = Some (lenient, strictp) \<and>
   (\<forall>a. areaCode m = Some a \<longrightarrow> 0 < a \<and> a < 2 ^ 53) \<longrightarrow>
     checkValidity table m strict =
       Inr (test (if strict then strictp else lenient)
             ((case areaCode m of None \<Rightarrow> [] | Some a \<Rightarrow> showNat a) @
              (case phoneNumber m of None \<Rightarrow> [] | Some p \<Rightarrow> p))) \<and>
     ((if strict then strictp else lenient) = Seq Bol (Seq r Eol) \<longrightarrow>
        checkValidity table m strict =
          Inr (fullMatch r
                ((case areaCode m of None \<Rightarrow> [] | Some a \<Rightarrow> showNat a) @
                 (case phoneNumber m of None \<Rightarrow> [] | Some p \<Rightarrow> p))))"
proof (intro impI, elim conjE)
  assume iso: "isoCode m = Some k" and entry: "table k = Some (lenient, strictp)"
    and ac: "\<forall>a. areaCode m = Some a \<longrightarrow> 0 < a \<and> a < 2 ^ 53"
  let ?d = "(case areaCode m of None \<Rightarrow> [] | Some a \<Rightarrow> showNat a) @
            (case phoneNumber m of None \<Rightarrow> [] | Some p \<Rightarrow> p)"
  from ac have d: "validatedDigits m = ?d"
    by (auto simp: validatedDigits_def split: option.splits)
  from iso entry have c: "checkValidity table m strict =
      Inr (test (if strict then strictp else lenient) (validatedDigits m))"
    by (simp add: checkValidity_def)
  show "checkValidity table m strict = Inr (test (if strict then strictp else lenient) ?d) \<and>
     ((if strict then strictp else lenient) = Seq Bol (Seq r Eol) \<longrightarrow>
        checkValidity table m strict = Inr (fullMatch r ?d))"
    using c d test_anchored [of r ?d] by auto
qed

theorem checkValidity_search_witness:
  "checkValidity
     [''us'' \<mapsto> (Seq Bol (Seq (Seq AnyDigit (Seq AnyDigit AnyDigit)) Eol),
                Seq Bol (Seq (Seq (Lit CHR ''2'') (Seq AnyDigit AnyDigit)) Eol))]
     \<lparr>countryCode = Some 1, areaCode = Some 12, phoneNumber = Some ''3'', isoCode = Some ''us''\<rparr>
     True = Inr False"
proof -
  have nf: "\<not> fullMatch (Seq (Lit CHR ''2'') (Seq AnyDigit AnyDigit)) ''123''"
    by (simp add: fullMatch_def isDigit_def)
  have sn: "showNat 12 = ''12''"
    by code_simp
  have "checkValidity
     [''us'' \<mapsto> (Seq Bol (Seq (Seq AnyDigit (Seq AnyDigit AnyDigit)) Eol),
                Seq Bol (Seq (Seq (Lit CHR ''2'') (Seq AnyDigit AnyDigit)) Eol))]
     \<lparr>countryCode = Some 1, areaCode = Some 12, phoneNumber = Some ''3'', isoCode = Some ''us''\<rparr>
     True = Inr (fullMatch (Seq (Lit CHR ''2'') (Seq AnyDigit AnyDigit)) ''123'')"
    using checkValidity_search
      [of "\<lparr>countryCode = Some 1, areaCode = Some 12, phoneNumber = Some ''3'', isoCode = Some ''us''\<rparr>"
          "''us''"
          "[''us'' \<mapsto> (Seq Bol (Seq (Seq AnyDigit (Seq AnyDigit AnyDigit)) Eol),
                Seq Bol (Seq (Seq (Lit CHR ''2'') (Seq AnyDigit AnyDigit)) Eol))]"
          "Seq Bol (Seq (Seq AnyDigit (Seq AnyDigit AnyDigit)) Eol)"
          "Seq Bol (Seq (Seq (Lit CHR ''2'') (Seq AnyDigit AnyDigit)) Eol)"
          True
          "Seq (Lit CHR ''2'') (Seq AnyDigit AnyDigit)"]
    by (simp add: sn test_anchored)
  with nf show ?thesis by simp
qed

text \<open>
  An ISO code has two letters, and every name that an object inherits is longer: for a
  code of two letters only the entries of the table count.
\<close>

lemma two_letters_not_inherited: "length k = 2 \<Longrightarrow> k \<notin> set objectPrototypeNames"
  by (auto simp: objectPrototypeNames_def)

text \<open>
  For a key that is no ISO code the lookup can find an inherited property: with the key
  \<open>constructor\<close> and no such entry in the table, the validator answers \<open>true\<close> and does
  not raise.
\<close>

lemma checkValidity_inherited:
  "table ''constructor'' = None \<Longrightarrow> isoCode m = Some ''constructor'' \<Longrightarrow>
     checkValidity table m strict = Inr True"
  by (simp add: checkValidity_def objectPrototypeNames_def)

text \<open>
  Claim C7. The keys of the table and the ISO code of a phone number are ISO codes, of two
  letters. Then the validator raises exactly when the ISO code is missing or has no entry
  in the table, and for an ISO code that has an entry it returns a boolean.
\<close>

theorem checkValidity_raises_iff:
  "(\<forall>c\<in>dom table. length c = 2) \<and> (\<forall>c. isoCode m = Some c \<longrightarrow> length c = 2) \<longrightarrow>
   ((\<exists>e. checkValidity table m strict = Inl e) \<longleftrightarrow>
      (isoCode m = None \<or> (\<exists>c. isoCode m = Some c \<and> table c = None))) \<and>
   (isoCode m = Some k \<and> table k \<noteq> None \<longrightarrow> (\<exists>b. checkValidity table m strict = Inr b))"
proof (intro impI, elim conjE)
  assume keys: "\<forall>c\<in>dom table. length c = 2"
    and code: "\<forall>c. isoCode m = Some c \<longrightarrow> length c = 2"
  have undef: "table ''undefined'' = None"
  proof (rule ccontr)
    assume "table ''undefined'' \<noteq> None"
    then have "''undefined'' \<in> dom table" by (simp add: dom_def)
    with keys have "length ''undefined'' = 2" by blast
    then show False by simp
  qed
  have not_inherited: "''undefined'' \<notin> set objectPrototypeNames"
    by (simp add: objectPrototypeNames_def)
  show "((\<exists>e. checkValidity table m strict = Inl e) \<longleftrightarrow>
      (isoCode m = None \<or> (\<exists>c. isoCode m = Some c \<and> table c = None))) \<and>
   (isoCode m = Some k \<and> table k \<noteq> None \<longrightarrow> (\<exists>b. checkValidity table m strict = Inr b))"
  proof (cases "isoCode m")
    case None
    with undef not_inherited show ?thesis by (simp add: checkValidity_def)
  next
    case (Some c)
    with code have "c \<notin> set objectPrototypeNames" by (simp add: two_letters_not_inherited)
    with Some show ?thesis by (cases "table c") (auto simp: checkValidity_def)
  qed
qed

theorem checkValidity_raises_iff_witness:
  "(\<exists>b. checkValidity
      [''us'' \<mapsto> (Seq Bol (Seq (Seq AnyDigit AnyDigit) Eol), Seq Bol (Seq (Seq AnyDigit AnyDigit) Eol))]
      \<lparr>countryCode = Some 1, areaCode = None, phoneNumber = Some ''12'', isoCode = Some ''us''\<rparr>
      False = Inr b) \<and>
   checkValidity
      [''us'' \<mapsto> (Seq Bol (Seq (Seq AnyDigit AnyDigit) Eol), Seq Bol (Seq (Seq AnyDigit AnyDigit) Eol))]
      \<lparr>countryCode = Some 1, areaCode = None, phoneNumber = Some ''12'', isoCode = Some ''zz''\<rparr>
      False = Inl TypeError \<and>
   checkValidity
      [''us'' \<mapsto> (Seq Bol (Seq (Seq AnyDigit AnyDigit) Eol), Seq Bol (Seq (Seq AnyDigit AnyDigit) Eol))]
      \<lparr>countryCode = Some 1, areaCode = None, phoneNumber = Some ''12'', isoCode = None\<rparr>
      False = Inl TypeError"
proof -
  have keys: "\<forall>c\<in>dom [''us'' \<mapsto> (Seq Bol (Seq (Seq AnyDigit AnyDigit) Eol),
      Seq Bol (Seq (Seq AnyDigit AnyDigit) Eol))]. length c = 2"
    by simp
  have "\<exists>b. checkValidity
      [''us'' \<mapsto> (Seq Bol (Seq (Seq AnyDigit AnyDigit) Eol), Seq Bol (Seq (Seq AnyDigit AnyDigit) Eol))]
      \<lparr>countryCode = Some 1, areaCode = None, phoneNumber = Some ''12'', isoCode = Some ''us''\<rparr>
      False = Inr b"
    using keys checkValidity_raises_iff
      [of "[''us'' \<mapsto> (Seq Bol (Seq (Seq AnyDigit AnyDigit) Eol), Seq Bol (Seq (Seq AnyDigit AnyDigit) Eol))]"
          "\<lparr>countryCode = Some 1, areaCode = None, phoneNumber = Some ''12'', isoCode = Some ''us''\<rparr>"
          False "''us''"]
    by simp
  moreover have "\<exists>e. checkValidity
      [''us'' \<mapsto> (Seq Bol (Seq (Seq AnyDigit AnyDigit) Eol), Seq Bol (Seq (Seq AnyDigit AnyDigit) Eol))]
      \<lparr>countryCode = Some 1, areaCode = None, phoneNumber = Some ''12'', isoCode = Some ''zz''\<rparr>
      False = Inl e"
    using keys checkValidity_raises_iff
      [of "[''us'' \<mapsto> (Seq Bol (Seq (Seq AnyDigit AnyDigit) Eol), Seq Bol (Seq (Seq AnyDigit AnyDigit) Eol))]"
          "\<lparr>countryCode = Some 1, areaCode = None, phoneNumber = Some ''12'', isoCode = Some ''zz''\<rparr>"
          False "''us''"]
    by simp
  moreover have "\<exists>e. checkValidity
      [''us'' \<mapsto> (Seq Bol (Seq (Seq AnyDigit AnyDigit) Eol), Seq Bol (Seq (Seq AnyDigit AnyDigit) Eol))]
      \<lparr>countryCode = Some 1, areaCode = None, phoneNumber = Some ''12'', isoCode = None\<rparr>
      False = Inl e"
    using keys checkValidity_raises_iff
      [of "[''us'' \<mapsto> (Seq Bol (Seq (Seq AnyDigit AnyDigit) Eol), Seq Bol (Seq (Seq AnyDigit AnyDigit) Eol))]"
          "\<lparr>countryCode = Some 1, areaCode = None, phoneNumber = Some ''12'', isoCode = None\<rparr>"
          False "''us''"]
    by simp
  ultimately show ?thesis by (metis error.exhaust)
qed

section \<open>Properties of the parser\<close>

lemma takeWhile_isDigit_Nil: "takeWhile isDigit cs \<noteq> [] \<longleftrightarrow> cs \<noteq> [] \<and> isDigit (hd cs)"
  by (cases cs) auto

lemma countryCodeMatch_None:
  "(\<forall>i. Suc i < length f \<longrightarrow> \<not> (f ! i = CHR ''+'' \<and> isDigit (f ! Suc i))) \<Longrightarrow>
     countryCodeMatch f = None"
proof (induction f)
  case Nil
  then show ?case by simp
next
  case (Cons c cs)
  have "countryCodeMatch cs = None"
  proof (rule Cons.IH, intro allI impI)
    fix i assume "Suc i < length cs"
    with Cons.prems [rule_format, of "Suc i"]
    show "\<not> (cs ! i = CHR ''+'' \<and> isDigit (cs ! Suc i))" by simp
  qed
  moreover have "\<not> (c = CHR ''+'' \<and> takeWhile isDigit cs \<noteq> [])"
  proof
    assume a: "c = CHR ''+'' \<and> takeWhile isDigit cs \<noteq> []"
    then have "cs \<noteq> []" "isDigit (hd cs)" by (simp_all add: takeWhile_isDigit_Nil)
    then have "Suc 0 < length (c # cs)" "isDigit ((c # cs) ! Suc 0)"
      by (simp_all add: hd_conv_nth)
    with Cons.prems [rule_format, of 0] a show False by simp
  qed
  ultimately show ?case by simp
qed

lemma null_prefix:
  assumes "\<forall>d\<in>set v. isDigit d"
  shows "\<not> prefix (''null'' @ x) v"
proof
  assume "prefix (''null'' @ x) v"
  then obtain zs where "v = (''null'' @ x) @ zs" by (rule prefixE)
  then have "CHR ''n'' \<in> set v" by simp
  with assms have "isDigit CHR ''n''" by blast
  then show False by (simp add: isDigit_def)
qed

text \<open>
  Claim C10. When the formatted string has no plus sign directly followed by a digit, the
  country code is missing and so is the subscriber number, whatever the digits of the
  string are: the pattern then starts with the text \<open>null\<close>, which no string of digits
  starts with.
\<close>

theorem parsePhoneNumber_no_country_code:
  "(\<forall>i. Suc i < length f \<longrightarrow> \<not> (f ! i = CHR ''+'' \<and> isDigit (f ! Suc i))) \<longrightarrow>
     countryCode (parsePhoneNumber f cs pin) = None \<and>
     phoneNumber (parsePhoneNumber f cs pin) = None"
proof
  assume "\<forall>i. Suc i < length f \<longrightarrow> \<not> (f ! i = CHR ''+'' \<and> isDigit (f ! Suc i))"
  then have cc: "countryCodeMatch f = None" by (rule countryCodeMatch_None)
  have "\<not> prefix (phoneNumberPrefix None (map_option parseInt (areaCodeMatch f))) (filter isDigit f)"
    unfolding phoneNumberPrefix_def by (simp add: null_prefix del: append.simps)
  with cc show "countryCode (parsePhoneNumber f cs pin) = None \<and>
     phoneNumber (parsePhoneNumber f cs pin) = None"
    by (simp add: parsePhoneNumber_def Let_def phoneNumberMatch_def)
qed

theorem parsePhoneNumber_no_country_code_witness:
  "filter isDigit ''(202) 555-1234'' = ''2025551234'' \<and>
   countryCode (parsePhoneNumber ''(202) 555-1234'' [] None) = None \<and>
   phoneNumber (parsePhoneNumber ''(202) 555-1234'' [] None) = None"
proof -
  have "CHR ''+'' \<notin> set ''(202) 555-1234''" by simp
  then have "\<forall>i. Suc i < length ''(202) 555-1234'' \<longrightarrow>
      \<not> (''(202) 555-1234'' ! i = CHR ''+'' \<and> isDigit (''(202) 555-1234'' ! Suc i))"
    by (metis Suc_lessD nth_mem)
  with parsePhoneNumber_no_country_code [of "''(202) 555-1234''" "[]" None]
  have "countryCode (parsePhoneNumber ''(202) 555-1234'' [] None) = None \<and>
     phoneNumber (parsePhoneNumber ''(202) 555-1234'' [] None) = None"
    by (rule mp)
  moreover have "filter isDigit ''(202) 555-1234'' = ''2025551234''"
    by (simp add: isDigit_def)
  ultimately show ?thesis by simp
qed

text \<open>
  Claim C4 at the input \<open>+1 (000) 555-1234\<close>, with the United States as the only
  candidate. The country code is 1 and the area code is the number 0, which
  \<^verbatim>\<open>areaCode || ""\<close> turns into the empty text: the pattern is \<^verbatim>\<open>^1(\d+)\<close> and the subscriber
  number that the parser returns still starts with the digits of the area code. With
  \<open>+1 (020) 555-1234\<close> the area code is the number 20, the pattern \<^verbatim>\<open>^120(\d+)\<close> does not
  match the digits \<open>10205551234\<close>, and there is no subscriber number.
\<close>

theorem parsePhoneNumber_zero_area_code:
  "parsePhoneNumber ''+1 (000) 555-1234''
     [\<lparr>iso = ''us'', name = ''United States'', decorative = '''', dial = ''1'', mask = ''+1 (...) ...-....''\<rparr>]
     None =
     \<lparr>countryCode = Some 1, areaCode = Some 0, phoneNumber = Some ''0005551234'', isoCode = Some ''us''\<rparr> \<and>
   parsePhoneNumber ''+1 (020) 555-1234''
     [\<lparr>iso = ''us'', name = ''United States'', decorative = '''', dial = ''1'', mask = ''+1 (...) ...-....''\<rparr>]
     None =
     \<lparr>countryCode = Some 1, areaCode = Some 20, phoneNumber = None, isoCode = Some ''us''\<rparr>"
  by code_simp

section \<open>Properties of the cursor tracker\<close>

lemma findIndex_neg: "findIndex P xs < 0 \<longleftrightarrow> (\<forall>x\<in>set xs. \<not> P x)"
  by (auto simp: findIndex_def list_ex_iff)

lemma findIndex_found:
  assumes "findIndex P xs = int i"
  shows "i < length xs \<and> P (xs ! i) \<and> (\<forall>k<i. \<not> P (xs ! k))"
proof -
  let ?n = "length (takeWhile (\<lambda>x. \<not> P x) xs)"
  from assms have ex: "\<exists>x\<in>set xs. P x" and i: "i = ?n"
    by (auto simp: findIndex_def list_ex_iff split: if_splits)
  from ex have "takeWhile (\<lambda>x. \<not> P x) xs \<noteq> xs"
    by (simp add: takeWhile_eq_all_conv)
  then have less: "?n < length xs"
    by (metis length_takeWhile_le le_neq_implies_less takeWhile_eq_take take_all_iff linorder_not_less)
  from nth_length_takeWhile [OF less] have "P (xs ! ?n)" by simp
  moreover have "\<forall>k<?n. \<not> P (xs ! k)"
  proof (intro allI impI)
    fix k assume k: "k < ?n"
    then have "takeWhile (\<lambda>x. \<not> P x) xs ! k \<in> set (takeWhile (\<lambda>x. \<not> P x) xs)"
      by (rule nth_mem)
    then have "\<not> P (takeWhile (\<lambda>x. \<not> P x) xs ! k)"
      by (rule set_takeWhileD [THEN conjunct2])
    with k show "\<not> P (xs ! k)" by (simp add: takeWhile_nth)
  qed
  ultimately show ?thesis using less i by simp
qed

lemma first_bounds: "CHR ''.'' \<in> set pattern \<Longrightarrow> 0 \<le> first pattern \<and> first pattern \<le> int (length pattern)"
proof -
  assume "CHR ''.'' \<in> set pattern"
  then have "list_ex (\<lambda>c. c \<in> slots) pattern"
    by (auto simp: list_ex_iff slots_def)
  then show ?thesis
    by (simp add: first_def findIndex_def length_takeWhile_le)
qed

lemma length_prevWalk: "length (prevWalk j i t) = length t"
  by (induction t arbitrary: j i) auto

lemma prevWalk_range:
  "x \<in> set (prevWalk j i t) \<Longrightarrow> x = j \<or> (i < x \<and> x \<le> i + length t)"
proof (induction t arbitrary: j i)
  case Nil
  then show ?case by simp
next
  case (Cons c cs)
  show ?case
  proof (cases "c \<in> slots")
    case True
    with Cons.prems have "x = Suc i \<or> x \<in> set (prevWalk (Suc i) (Suc i) cs)" by simp
    with Cons.IH [of "Suc i" "Suc i"] show ?thesis by auto
  next
    case False
    with Cons.prems have "x = j \<or> x \<in> set (prevWalk j (Suc i) cs)" by simp
    with Cons.IH [of j "Suc i"] show ?thesis by auto
  qed
qed

text \<open>No slot up to position \<open>k\<close>: the entry is the initial value of \<open>j\<close>.\<close>

lemma prevWalk_no_slot:
  "k < length t \<Longrightarrow> \<forall>m\<le>k. t ! m \<notin> slots \<Longrightarrow> prevWalk j i t ! k = j"
proof (induction t arbitrary: i k)
  case Nil
  then show ?case by simp
next
  case (Cons c cs)
  from Cons.prems(2) [rule_format, of 0] have c: "c \<notin> slots" by simp
  show ?case
  proof (cases k)
    case 0
    with c show ?thesis by simp
  next
    case (Suc k')
    have "\<forall>m\<le>k'. cs ! m \<notin> slots"
    proof (intro allI impI)
      fix m assume "m \<le> k'"
      with Cons.prems(2) [rule_format, of "Suc m"] Suc show "cs ! m \<notin> slots" by simp
    qed
    with Cons.IH [of k' "Suc i"] Cons.prems(1) Suc c show ?thesis by simp
  qed
qed

text \<open>The last slot up to position \<open>k\<close> is at \<open>m\<close>: the entry is one past \<open>m\<close>.\<close>

lemma prevWalk_last_slot:
  "k < length t \<Longrightarrow> m \<le> k \<Longrightarrow> t ! m \<in> slots \<Longrightarrow>
   \<forall>n. m < n \<and> n \<le> k \<longrightarrow> t ! n \<notin> slots \<Longrightarrow> prevWalk j i t ! k = i + Suc m"
proof (induction t arbitrary: j i k m)
  case Nil
  then show ?case by simp
next
  case (Cons c cs)
  show ?case
  proof (cases m)
    case 0
    with Cons.prems have c: "c \<in> slots" by simp
    show ?thesis
    proof (cases k)
      case 0
      with c \<open>m = 0\<close> show ?thesis by simp
    next
      case (Suc k')
      have "\<forall>n\<le>k'. cs ! n \<notin> slots"
      proof (intro allI impI)
        fix n assume "n \<le> k'"
        with Cons.prems(4) [rule_format, of "Suc n"] Suc \<open>m = 0\<close> show "cs ! n \<notin> slots" by simp
      qed
      with prevWalk_no_slot [of k' cs "Suc i" "Suc i"] Cons.prems(1) Suc
      have "prevWalk (Suc i) (Suc i) cs ! k' = Suc i" by simp
      with c Suc \<open>m = 0\<close> show ?thesis by simp
    qed
  next
    case (Suc m')
    with Cons.prems obtain k' where k: "k = Suc k'" by (cases k) auto
    have rest: "\<forall>n. m' < n \<and> n \<le> k' \<longrightarrow> cs ! n \<notin> slots"
    proof (intro allI impI)
      fix n assume "m' < n \<and> n \<le> k'"
      with Cons.prems(4) [rule_format, of "Suc n"] Suc k show "cs ! n \<notin> slots" by simp
    qed
    from Cons.prems Suc k have "k' < length cs" "m' \<le> k'" "cs ! m' \<in> slots" by simp_all
    from Cons.IH [OF this rest]
    have "\<And>j'. prevWalk j' (Suc i) cs ! k' = Suc i + Suc m'" .
    with Suc k show ?thesis by simp
  qed
qed

lemma greatest_below:
  "\<exists>k<i::nat. P k \<Longrightarrow> \<exists>m<i. P m \<and> (\<forall>n. m < n \<and> n < i \<longrightarrow> \<not> P n)"
proof (induction i)
  case 0
  then show ?case by simp
next
  case (Suc i)
  show ?case
  proof (cases "P i")
    case True
    then show ?thesis by (intro exI [of _ i]) auto
  next
    case False
    with Suc.prems have "\<exists>k<i. P k" by (metis less_Suc_eq)
    from Suc.IH [OF this] obtain m where "m < i" "P m" "\<forall>n. m < n \<and> n < i \<longrightarrow> \<not> P n"
      by auto
    with False show ?thesis
      by (intro exI [of _ m]) (auto simp: less_Suc_eq)
  qed
qed

lemma length_clean: "length (clean pattern x) = length pattern"
  by (simp add: clean_def cleanInput_def length_cleanWalk dotDigits_def)

lemma length_prev: "length (prev pattern) = length pattern"
  by (simp add: prev_def length_prevWalk dotDigits_def)

lemma prev_le: "k < length pattern \<Longrightarrow> prev pattern ! k \<le> length pattern"
proof -
  assume "k < length pattern"
  then have "prev pattern ! k \<in> set (prevWalk 0 0 (dotDigits pattern))"
    by (simp add: prev_def length_prevWalk dotDigits_def)
  from prevWalk_range [OF this] show ?thesis by (auto simp: dotDigits_def)
qed

lemma caret_bounds:
  assumes dot: "CHR ''.'' \<in> set pattern"
  shows "\<exists>a. caret pattern back v sel = Some a \<and> 0 \<le> a \<and> a \<le> int (length pattern)"
proof -
  let ?i = "findIndex (\<lambda>c. c \<in> slots) (clean pattern (take sel v))"
  from dot have ne: "0 < length pattern" by (cases pattern) auto
  note fb = first_bounds [OF dot]
  show ?thesis
  proof (cases "?i < 0")
    case True
    from ne have "at (prev pattern) (int (length (prev pattern)) - 1) =
        Some (prev pattern ! (length pattern - 1))"
      by (simp add: at_def length_prev nat_diff_distrib')
    moreover from ne have "prev pattern ! (length pattern - 1) \<le> length pattern"
      by (intro prev_le) simp
    ultimately show ?thesis using True by (simp add: caret_def Let_def)
  next
    case False
    then obtain i where i: "?i = int i" by (metis nonneg_int_cases not_le)
    from findIndex_found [OF i] have il: "i < length pattern" by (simp add: length_clean)
    show ?thesis
    proof (cases "back")
      case False
      with i il show ?thesis by (simp add: caret_def Let_def)
    next
      case True
      show ?thesis
      proof (cases "at (prev pattern) (?i - 1)")
        case None
        with True i fb show ?thesis by (simp add: caret_def Let_def)
      next
        case (Some p)
        then have "p \<le> length pattern"
          using prev_le [of "nat (?i - 1)" pattern] il i
          by (auto simp: at_def length_prev split: if_splits)
        with Some True i fb show ?thesis by (simp add: caret_def Let_def)
      qed
    qed
  qed
qed

text \<open>
  Claim C8, as stated (both offsets are within the new display string), fails. With the
  mask \<open>+1 (...) ...-....\<close>, the value \<open>+1 (202)\<close> and the caret after the last digit
  (offset 7), both offsets are 9, the index of the first unfilled slot of the untrimmed
  mask, and the new display string \<open>+1 (202)\<close> has length 8.
\<close>

theorem format_caret_bound_counterexample:
  "new_value (format ''+1 (...) ...-....''
     \<lparr>target_value = ''+1 (202)'', selectionStart = 7, selectionEnd = 7, backRef = False\<rparr>) = ''+1 (202)'' \<and>
   rangeStart (format ''+1 (...) ...-....''
     \<lparr>target_value = ''+1 (202)'', selectionStart = 7, selectionEnd = 7, backRef = False\<rparr>) = Some 9 \<and>
   rangeEnd (format ''+1 (...) ...-....''
     \<lparr>target_value = ''+1 (202)'', selectionStart = 7, selectionEnd = 7, backRef = False\<rparr>) = Some 9 \<and>
   int (length ''+1 (202)'') < 9"
  by code_simp

text \<open>
  Claim C8, amended. For every mask that has a slot marker, every value, every selection
  and either direction, both offsets that the handler passes to \<open>setSelectionRange\<close> are
  numbers between 0 and the length of the mask. (They can be past the end of the trimmed
  display string; \<open>setSelectionRange\<close> of the host clamps them.)
\<close>

theorem format_caret_bound:
  "CHR ''.'' \<in> set pattern \<longrightarrow>
     (\<exists>a b. rangeStart (format pattern t) = Some a \<and> rangeEnd (format pattern t) = Some b \<and>
        0 \<le> a \<and> a \<le> int (length pattern) \<and> 0 \<le> b \<and> b \<le> int (length pattern))"
proof
  assume dot: "CHR ''.'' \<in> set pattern"
  from caret_bounds [OF dot, of "backRef t" "target_value t" "selectionStart t"]
    caret_bounds [OF dot, of "backRef t" "target_value t" "selectionEnd t"]
  show "\<exists>a b. rangeStart (format pattern t) = Some a \<and> rangeEnd (format pattern t) = Some b \<and>
        0 \<le> a \<and> a \<le> int (length pattern) \<and> 0 \<le> b \<and> b \<le> int (length pattern)"
    by (auto simp: format_def)
qed

theorem format_caret_bound_witness:
  "\<exists>a b. rangeStart (format ''+1 (...) ...-....''
       \<lparr>target_value = ''+1 (202) 5'', selectionStart = 3, selectionEnd = 10, backRef = True\<rparr>) = Some a \<and>
     rangeEnd (format ''+1 (...) ...-....''
       \<lparr>target_value = ''+1 (202) 5'', selectionStart = 3, selectionEnd = 10, backRef = True\<rparr>) = Some b \<and>
     0 \<le> a \<and> a \<le> 17 \<and> 0 \<le> b \<and> b \<le> 17"
  using format_caret_bound [of "''+1 (...) ...-....''"
      "\<lparr>target_value = ''+1 (202) 5'', selectionStart = 3, selectionEnd = 10, backRef = True\<rparr>"]
  by simp

subsection \<open>The backspace flag\<close>

lemma at_prev:
  "0 < i \<Longrightarrow> i \<le> length pattern \<Longrightarrow> at (prev pattern) (int i - 1) = Some (prev pattern ! (i - 1))"
  by (simp add: at_def length_prev nat_diff_distrib')

lemma caret_back_after_slot:
  assumes fi: "findIndex (\<lambda>c. c \<in> slots) (clean pattern (take sel v)) = int i"
    and ex: "\<exists>k<i. dotDigits pattern ! k \<in> slots"
  shows "\<exists>r. caret pattern True v sel = Some (int r) \<and> 0 < r \<and> r \<le> i \<and>
           dotDigits pattern ! (r - 1) \<in> slots \<and>
           (\<forall>k. r \<le> k \<and> k < i \<longrightarrow> dotDigits pattern ! k \<notin> slots)"
proof -
  from findIndex_found [OF fi] have il: "i < length pattern" by (simp add: length_clean)
  from greatest_below [OF ex] obtain m where m: "m < i" "dotDigits pattern ! m \<in> slots"
    "\<forall>n. m < n \<and> n < i \<longrightarrow> dotDigits pattern ! n \<notin> slots" by auto
  from m(1) have pos: "0 < i" by simp
  have "prevWalk 0 0 (dotDigits pattern) ! (i - 1) = 0 + Suc m"
  proof (rule prevWalk_last_slot)
    show "i - 1 < length (dotDigits pattern)" using il by (simp add: dotDigits_def)
    show "m \<le> i - 1" using m(1) by simp
    show "dotDigits pattern ! m \<in> slots" by (rule m(2))
    show "\<forall>n. m < n \<and> n \<le> i - 1 \<longrightarrow> dotDigits pattern ! n \<notin> slots"
      using m(3) pos by auto
  qed
  then have p: "prev pattern ! (i - 1) = Suc m" by (simp add: prev_def)
  from at_prev [OF pos] il have "at (prev pattern) (int i - 1) = Some (prev pattern ! (i - 1))"
    by simp
  with p fi have "caret pattern True v sel = Some (int (Suc m))"
    by (simp add: caret_def Let_def)
  with m show ?thesis by (intro exI [of _ "Suc m"]) auto
qed

lemma caret_back_no_slot:
  assumes fi: "findIndex (\<lambda>c. c \<in> slots) (clean pattern (take sel v)) = int i"
    and no: "\<forall>k<i. dotDigits pattern ! k \<notin> slots"
  shows "caret pattern True v sel = Some (first pattern)"
proof (cases i)
  case 0
  with fi show ?thesis by (simp add: caret_def Let_def at_def)
next
  case (Suc i')
  from findIndex_found [OF fi] have il: "i < length pattern" by (simp add: length_clean)
  have "prevWalk 0 0 (dotDigits pattern) ! (i - 1) = 0"
  proof (rule prevWalk_no_slot)
    show "i - 1 < length (dotDigits pattern)" using il by (simp add: dotDigits_def)
    show "\<forall>m\<le>i - 1. dotDigits pattern ! m \<notin> slots" using no Suc by auto
  qed
  then have p: "prev pattern ! (i - 1) = 0" by (simp add: prev_def)
  from Suc have pos: "0 < i" by simp
  from at_prev [OF pos] il have "at (prev pattern) (int i - 1) = Some (prev pattern ! (i - 1))"
    by simp
  with p fi show ?thesis by (simp add: caret_def Let_def)
qed

text \<open>
  Claim C9, as stated (with the backspace flag the offset is one slot to the left of the
  offset computed otherwise, rather than resting on it), fails. With the mask
  \<open>+1 (...) ...-....\<close>, the value \<open>+1 (202) 5\<close> and the caret at its end, the first unfilled
  slot is at offset 10, and the offset is 10 with the flag as well as without it: the
  position before offset 10 is a slot, and the entry of \<open>prev\<close> for a slot is one past it.
\<close>

theorem caret_backspace_counterexample:
  "caret ''+1 (...) ...-....'' False ''+1 (202) 5'' 10 = Some 10 \<and>
   caret ''+1 (...) ...-....'' True ''+1 (202) 5'' 10 = Some 10"
  by code_simp

text \<open>
  Claim C9, amended. Let \<open>i\<close> be the offset of the first unfilled slot that the prefix of
  the new value leaves in the mask (the offset for an edit without the flag). With the
  backspace flag the offset is one past the nearest slot of the mask, digits counted as
  slots, that lies before \<open>i\<close>: the caret moves back over the literal characters between
  that slot and \<open>i\<close>, and stays at \<open>i\<close> when the position before \<open>i\<close> is a slot. When no
  slot lies before \<open>i\<close> the offset is \<open>first\<close>, the index of the first dot of the mask as
  it is written. When the prefix leaves no unfilled slot the flag changes nothing.
\<close>

theorem caret_backspace:
  "(findIndex (\<lambda>c. c \<in> slots) (clean pattern (take sel v)) = int i \<longrightarrow>
      caret pattern False v sel = Some (int i) \<and>
      ((\<exists>k<i. dotDigits pattern ! k \<in> slots) \<longrightarrow>
         (\<exists>r. caret pattern True v sel = Some (int r) \<and> 0 < r \<and> r \<le> i \<and>
            dotDigits pattern ! (r - 1) \<in> slots \<and>
            (\<forall>k. r \<le> k \<and> k < i \<longrightarrow> dotDigits pattern ! k \<notin> slots))) \<and>
      ((\<forall>k<i. dotDigits pattern ! k \<notin> slots) \<longrightarrow>
         caret pattern True v sel = Some (first pattern))) \<and>
   (findIndex (\<lambda>c. c \<in> slots) (clean pattern (take sel v)) < 0 \<longrightarrow>
      caret pattern True v sel = caret pattern False v sel)"
proof (intro conjI impI)
  assume fi: "findIndex (\<lambda>c. c \<in> slots) (clean pattern (take sel v)) = int i"
  then show "caret pattern False v sel = Some (int i)"
    by (simp add: caret_def Let_def)
  show "\<exists>r. caret pattern True v sel = Some (int r) \<and> 0 < r \<and> r \<le> i \<and>
            dotDigits pattern ! (r - 1) \<in> slots \<and>
            (\<forall>k. r \<le> k \<and> k < i \<longrightarrow> dotDigits pattern ! k \<notin> slots)"
    if "\<exists>k<i. dotDigits pattern ! k \<in> slots"
    using fi that by (rule caret_back_after_slot)
  show "caret pattern True v sel = Some (first pattern)"
    if "\<forall>k<i. dotDigits pattern ! k \<notin> slots"
    using fi that by (rule caret_back_no_slot)
next
  assume "findIndex (\<lambda>c. c \<in> slots) (clean pattern (take sel v)) < 0"
  then show "caret pattern True v sel = caret pattern False v sel"
    by (simp add: caret_def Let_def)
qed

theorem caret_backspace_witness:
  "caret ''+1 (...) ...-....'' False ''+1 (202) '' 9 = Some 9 \<and>
   caret ''+1 (...) ...-....'' True ''+1 (202) '' 9 = Some 7 \<and>
   caret ''+1 (...) ...-....'' True '''' 0 = Some (first ''+1 (...) ...-....'') \<and>
   first ''+1 (...) ...-....'' = 4"
proof -
  have f9: "findIndex (\<lambda>c. c \<in> slots) (clean ''+1 (...) ...-....'' (take 9 ''+1 (202) '')) = int 9"
    by code_simp
  have f1: "findIndex (\<lambda>c. c \<in> slots) (clean ''+1 (...) ...-....'' (take 0 '''')) = int 1"
    by code_simp
  have no: "\<forall>k<1. dotDigits ''+1 (...) ...-....'' ! k \<notin> slots"
    by (simp add: dotDigits_def isDigit_def slots_def)
  from caret_backspace [of "''+1 (...) ...-....''" 9 "''+1 (202) ''" 9] f9
  have "caret ''+1 (...) ...-....'' False ''+1 (202) '' 9 = Some 9" by simp
  moreover have "caret ''+1 (...) ...-....'' True ''+1 (202) '' 9 = Some 7"
    by code_simp
  moreover from caret_backspace [of "''+1 (...) ...-....''" 0 "''''" 1] f1 no
  have "caret ''+1 (...) ...-....'' True '''' 0 = Some (first ''+1 (...) ...-....'')"
    by blast
  moreover have "first ''+1 (...) ...-....'' = 4"
    by code_simp
  ultimately show ?thesis by simp
qed

section \<open>Formatting a number and parsing it back\<close>

subsection \<open>Decimal text\<close>

lemma isDigit_digitChar: "isDigit (digitChar n)"
proof -
  have "n mod 10 < length ''0123456789''" by simp
  then have "''0123456789'' ! (n mod 10) \<in> set ''0123456789''" by (rule nth_mem)
  then show ?thesis by (simp only: isDigit_def digitChar_def)
qed

lemma digitVal_digitChar: "n < 10 \<Longrightarrow> digitVal (digitChar n) = n"
proof -
  assume "n < 10"
  then consider "n = 0" | "n = 1" | "n = 2" | "n = 3" | "n = 4" | "n = 5" | "n = 6" | "n = 7"
    | "n = 8" | "n = 9" by atomize_elim presburger
  then show ?thesis by cases (simp_all add: digitVal_def digitChar_def)
qed

lemma showNat_digits: "\<forall>d\<in>set (showNat n). isDigit d"
proof (induction n rule: showNat.induct)
  case (1 n)
  show ?case
  proof (cases "n < 10")
    case True
    then show ?thesis by (simp add: showNat.simps [of n] isDigit_digitChar)
  next
    case False
    with 1 show ?thesis by (simp add: showNat.simps [of n] isDigit_digitChar)
  qed
qed

lemma showNat_not_Nil: "showNat n \<noteq> []"
  by (simp add: showNat.simps [of n])

lemma foldl_showNat: "foldl (\<lambda>a c. 10 * a + digitVal c) 0 (showNat n) = n"
proof (induction n rule: showNat.induct)
  case (1 n)
  show ?case
  proof (cases "n < 10")
    case True
    then show ?thesis by (simp add: showNat.simps [of n] digitVal_digitChar)
  next
    case False
    with 1 have "foldl (\<lambda>a c. 10 * a + digitVal c) 0 (showNat (n div 10)) = n div 10" by simp
    moreover have "digitVal (digitChar (n mod 10)) = n mod 10"
      by (rule digitVal_digitChar) simp
    ultimately show ?thesis using False by (simp add: showNat.simps [of n])
  qed
qed

lemma takeWhile_all: "\<forall>d\<in>set ds. P d \<Longrightarrow> takeWhile P ds = ds"
  by (simp add: takeWhile_eq_all_conv)

lemma parseInt_plus_showNat: "parseInt (CHR ''+'' # showNat n) = n"
  by (simp add: parseInt_def takeWhile_all showNat_digits foldl_showNat)

lemma parseInt_showNat: "parseInt (showNat n) = n"
proof -
  obtain c cs where s: "showNat n = c # cs" using showNat_not_Nil [of n] by (cases "showNat n") auto
  with showNat_digits [of n] have "isDigit c" by simp
  then have "c \<noteq> CHR ''+''" by (auto simp: isDigit_def)
  with s have "parseInt (showNat n) =
      foldl (\<lambda>a c. 10 * a + digitVal c) 0 (takeWhile isDigit (showNat n))"
    by (simp add: parseInt_def)
  then show ?thesis by (simp add: takeWhile_all showNat_digits foldl_showNat)
qed

subsection \<open>The walk over a mask without digits\<close>

lemma cleanWalk_skip:
  "\<forall>c\<in>set l. c \<notin> slots \<and> \<not> isDigit c \<Longrightarrow> \<forall>d\<in>set q. isDigit d \<Longrightarrow>
     cleanWalk q (l @ t) = l @ cleanWalk q t"
proof (induction l)
  case Nil
  then show ?case by simp
next
  case (Cons c cs)
  then have "q \<noteq> [] \<Longrightarrow> hd q \<noteq> c" by (metis hd_in_set list.set_intros(1))
  with Cons show ?case by auto
qed

lemma cleanWalk_fill:
  "cleanWalk (a @ q) (replicate (length a) CHR ''.'' @ t) = a @ cleanWalk q t"
  by (induction a) (simp_all add: slots_def)

lemma set_cleanWalk: "set (cleanWalk q t) \<subseteq> set q \<union> set t"
proof (induction t arbitrary: q)
  case Nil
  then show ?case by simp
next
  case (Cons c cs)
  show ?case
  proof (cases q)
    case Nil
    with Cons [of "[]"] show ?thesis by auto
  next
    case (Cons d ds)
    with Cons.IH [of ds] Cons.IH [of q] show ?thesis by auto
  qed
qed

subsection \<open>Display trimming keeps a prefix that is followed by a digit\<close>

lemma filter_dropWhile_not: "filter P (dropWhile (\<lambda>x. \<not> P x) xs) = filter P xs"
  by (induction xs) auto

lemma dropTrailing_append:
  assumes "\<exists>d\<in>set y. isDigit d"
  shows "dropTrailing (x @ y) = x @ dropTrailing y"
proof -
  from assms obtain d where "d \<in> set (rev y)" "\<not> \<not> isDigit d" by auto
  then have "dropWhile (\<lambda>c. \<not> isDigit c) (rev y @ rev x) =
      dropWhile (\<lambda>c. \<not> isDigit c) (rev y) @ rev x"
    by (rule dropWhile_append1)
  then show ?thesis by (simp add: dropTrailing_def)
qed

lemma digits_dropTrailing: "filter isDigit (dropTrailing y) = filter isDigit y"
proof -
  have "filter isDigit (dropTrailing y) =
      rev (filter isDigit (dropWhile (\<lambda>c. \<not> isDigit c) (rev y)))"
    by (simp add: dropTrailing_def rev_filter)
  also have "\<dots> = rev (filter isDigit (rev y))" by (simp only: filter_dropWhile_not)
  finally show ?thesis by (simp add: rev_filter)
qed

lemma set_dropTrailing: "set (dropTrailing y) \<subseteq> set y"
  using set_dropWhileD by (fastforce simp: dropTrailing_def)

lemma closeParen_cases: "closeParen s = s \<or> closeParen s = s @ '')''"
  by (simp add: closeParen_def)

lemma displayFormat_append:
  assumes "\<exists>d\<in>set y. isDigit d"
  shows "\<exists>y'. displayFormat (x @ y) = x @ y' \<and> filter isDigit y' = filter isDigit y \<and>
           set y' \<subseteq> set y \<union> {CHR '')''}"
proof -
  from closeParen_cases [of "dropTrailing (x @ y)"]
  show ?thesis
  proof
    assume "closeParen (dropTrailing (x @ y)) = dropTrailing (x @ y)"
    with dropTrailing_append [OF assms, of x] digits_dropTrailing [of y] set_dropTrailing [of y]
    show ?thesis by (intro exI [of _ "dropTrailing y"]) (auto simp: displayFormat_def)
  next
    assume "closeParen (dropTrailing (x @ y)) = dropTrailing (x @ y) @ '')''"
    with dropTrailing_append [OF assms, of x] digits_dropTrailing [of y] set_dropTrailing [of y]
    show ?thesis
      by (intro exI [of _ "dropTrailing y @ '')''"]) (auto simp: displayFormat_def isDigit_def)
  qed
qed

subsection \<open>The three matches on a formatted number\<close>

lemma countryCodeMatch_leading:
  assumes "ds \<noteq> []" "\<forall>d\<in>set ds. isDigit d" "r = [] \<or> \<not> isDigit (hd r)"
  shows "countryCodeMatch (CHR ''+'' # ds @ r) = Some (CHR ''+'' # ds)"
proof -
  from assms(3) have "takeWhile isDigit r = []" by (cases r) auto
  with assms(2) have "takeWhile isDigit (ds @ r) = ds" by (simp add: takeWhile_append2)
  with assms(1) show ?thesis by simp
qed

lemma areaCodeMatch_group:
  assumes "CHR ''('' \<notin> set pre" "ds \<noteq> []" "\<forall>d\<in>set ds. isDigit d"
  shows "areaCodeMatch (pre @ CHR ''('' # ds @ CHR '')'' # r) = Some ds"
  using assms(1)
proof (induction pre)
  case Nil
  have nd: "\<not> isDigit CHR '')''" by (simp add: isDigit_def)
  from assms(3) nd have "takeWhile isDigit (ds @ CHR '')'' # r) = ds"
    by (simp add: takeWhile_append2)
  moreover from assms(3) nd have "dropWhile isDigit (ds @ CHR '')'' # r) = CHR '')'' # r"
    by (simp add: dropWhile_append2)
  ultimately show ?case using assms(2) by simp
next
  case (Cons c cs)
  then have "c \<noteq> CHR ''(''" by auto
  with Cons show ?case by simp
qed

lemma areaCodeMatch_no_paren: "CHR ''('' \<notin> set s \<Longrightarrow> areaCodeMatch s = None"
  by (induction s) auto

lemma phoneNumberMatch_rest:
  assumes "sub \<noteq> []" "\<forall>d\<in>set sub. isDigit d"
  shows "phoneNumberMatch pre (pre @ sub) = Some sub"
  using assms by (simp add: phoneNumberMatch_def takeWhile_all)

subsection \<open>The formatted text of a complete number\<close>

lemma punct_not_digit:
  "\<not> isDigit CHR ''+''" "\<not> isDigit CHR ''(''" "\<not> isDigit CHR '')''"
  by (simp_all add: isDigit_def)

lemma punct_not_slot:
  "CHR ''+'' \<notin> slots" "CHR ''('' \<notin> slots" "CHR '')'' \<notin> slots"
  by (simp_all add: slots_def)

lemma formatted_shape:
  assumes shape: "dotDigits pattern = ''+'' @ replicate (length ccd) CHR ''.'' @ sep @ grp @ rest"
    and grp: "grp = (if acd = [] then [] else ''('' @ replicate (length acd) CHR ''.'' @ '')'')"
    and ccd: "\<forall>d\<in>set ccd. isDigit d"
    and acd: "\<forall>d\<in>set acd. isDigit d"
    and sep: "\<forall>x\<in>set sep. x \<notin> slots"
    and sub: "sub \<noteq> []" "\<forall>d\<in>set sub. isDigit d" "nslots rest = length sub"
  shows "\<exists>y. displayFormat (clean pattern (ccd @ acd @ sub)) =
            (''+'' @ ccd @ sep @ (if acd = [] then [] else ''('' @ acd @ '')'')) @ y \<and>
          filter isDigit y = sub \<and> set y \<subseteq> set sub \<union> set rest \<union> {CHR '')''}"
proof -
  let ?p = "dotDigits pattern"
  let ?g = "if acd = [] then [] else ''('' @ acd @ '')''"
  have nd: "\<forall>c\<in>set ?p. \<not> isDigit c" by (rule dotDigits_no_digit)
  have nd_sep: "\<forall>c\<in>set sep. c \<notin> slots \<and> \<not> isDigit c"
    using nd sep by (simp add: shape)
  have nd_rest: "\<forall>c\<in>set rest. \<not> isDigit c"
    using nd by (simp add: shape)
  have plus: "\<forall>c\<in>set ''+''. c \<notin> slots \<and> \<not> isDigit c"
    by (simp add: punct_not_digit punct_not_slot)
  have open_paren: "\<forall>c\<in>set ''(''. c \<notin> slots \<and> \<not> isDigit c"
    by (simp add: punct_not_digit punct_not_slot)
  have close_paren: "\<forall>c\<in>set '')''. c \<notin> slots \<and> \<not> isDigit c"
    by (simp add: punct_not_digit punct_not_slot)
  have q_all: "\<forall>d\<in>set (ccd @ acd @ sub). isDigit d"
    using ccd acd sub(2) by auto
  have q_rest: "\<forall>d\<in>set (acd @ sub). isDigit d"
    using acd sub(2) by auto
  have group: "cleanWalk (acd @ sub) (grp @ rest) = ?g @ cleanWalk sub rest"
  proof (cases "acd = []")
    case True
    then show ?thesis by (simp add: grp)
  next
    case False
    have "cleanWalk (acd @ sub) (''('' @ (replicate (length acd) CHR ''.'' @ '')'' @ rest)) =
        ''('' @ cleanWalk (acd @ sub) (replicate (length acd) CHR ''.'' @ '')'' @ rest)"
      using open_paren q_rest by (rule cleanWalk_skip)
    also have "cleanWalk (acd @ sub) (replicate (length acd) CHR ''.'' @ '')'' @ rest) =
        acd @ cleanWalk sub ('')'' @ rest)"
      by (rule cleanWalk_fill)
    also have "cleanWalk sub ('')'' @ rest) = '')'' @ cleanWalk sub rest"
      using close_paren sub(2) by (rule cleanWalk_skip)
    finally show ?thesis using False by (simp add: grp)
  qed
  have "clean pattern (ccd @ acd @ sub) = cleanWalk (ccd @ acd @ sub) ?p"
    using q_all by (simp add: clean_def cleanInput_def filter_id_conv)
  also have "\<dots> = cleanWalk (ccd @ acd @ sub)
      (''+'' @ (replicate (length ccd) CHR ''.'' @ sep @ grp @ rest))"
    by (simp only: shape)
  also have "\<dots> = ''+'' @ cleanWalk (ccd @ acd @ sub)
      (replicate (length ccd) CHR ''.'' @ sep @ grp @ rest)"
    using plus q_all by (rule cleanWalk_skip)
  also have "cleanWalk (ccd @ acd @ sub) (replicate (length ccd) CHR ''.'' @ sep @ grp @ rest) =
      ccd @ cleanWalk (acd @ sub) (sep @ grp @ rest)"
    by (rule cleanWalk_fill)
  also have "cleanWalk (acd @ sub) (sep @ grp @ rest) = sep @ cleanWalk (acd @ sub) (grp @ rest)"
    using nd_sep q_rest by (rule cleanWalk_skip)
  finally have walk: "clean pattern (ccd @ acd @ sub) =
      (''+'' @ ccd @ sep @ ?g) @ cleanWalk sub rest"
    by (simp add: group)
  have digits: "filter isDigit (cleanWalk sub rest) = sub"
    using digits_cleanWalk [OF nd_rest sub(2)] sub(3) by simp
  with sub(1) have "\<exists>d\<in>set (cleanWalk sub rest). isDigit d"
    by (metis filter_empty_conv)
  from displayFormat_append [OF this, of "''+'' @ ccd @ sep @ ?g"]
  obtain y where y: "displayFormat ((''+'' @ ccd @ sep @ ?g) @ cleanWalk sub rest) =
        (''+'' @ ccd @ sep @ ?g) @ y"
      "filter isDigit y = filter isDigit (cleanWalk sub rest)"
      "set y \<subseteq> set (cleanWalk sub rest) \<union> {CHR '')''}"
    by blast
  from y(3) set_cleanWalk [of sub rest] have "set y \<subseteq> set sub \<union> set rest \<union> {CHR '')''}"
    by blast
  with y(1,2) walk digits show ?thesis
    by (intro exI [of _ y]) (simp only: simp_thms)
qed

lemma parse_formatted:
  assumes f: "f = (''+'' @ ccd @ sep @ (if acd = [] then [] else ''('' @ acd @ '')'')) @ y"
    and ccd: "ccd \<noteq> []" "\<forall>d\<in>set ccd. isDigit d"
    and acd: "\<forall>d\<in>set acd. isDigit d"
    and sep: "\<forall>x\<in>set sep. \<not> isDigit x \<and> x \<noteq> CHR ''(''"
    and bare: "acd = [] \<longrightarrow> sep \<noteq> [] \<and> CHR ''('' \<notin> set y"
    and y: "filter isDigit y = sub"
  shows "countryCodeMatch f = Some (CHR ''+'' # ccd)"
    and "areaCodeMatch f = (if acd = [] then None else Some acd)"
    and "filter isDigit f = ccd @ acd @ sub"
proof -
  let ?g = "if acd = [] then [] else ''('' @ acd @ '')''"
  have no_paren: "CHR ''('' \<notin> set (''+'' @ ccd @ sep)"
    using ccd(2) sep punct_not_digit(2) by auto
  have "sep @ ?g @ y = [] \<or> \<not> isDigit (hd (sep @ ?g @ y))"
  proof (cases "sep = []")
    case True
    with bare have "acd \<noteq> []" by auto
    with True show ?thesis by (simp add: punct_not_digit)
  next
    case False
    with sep show ?thesis by (cases sep) auto
  qed
  from countryCodeMatch_leading [OF ccd this]
  show "countryCodeMatch f = Some (CHR ''+'' # ccd)" by (simp add: f)
  show "areaCodeMatch f = (if acd = [] then None else Some acd)"
  proof (cases "acd = []")
    case True
    with bare no_paren have "CHR ''('' \<notin> set f" by (simp add: f)
    with True show ?thesis by (simp add: areaCodeMatch_no_paren)
  next
    case False
    from areaCodeMatch_group [OF no_paren False acd, of y] False
    show ?thesis by (simp add: f)
  qed
  have "filter isDigit sep = []" using sep by (simp add: filter_empty_conv)
  moreover have "filter isDigit ccd = ccd" using ccd(2) by (simp add: filter_id_conv)
  moreover have "filter isDigit acd = acd" using acd by (simp add: filter_id_conv)
  ultimately show "filter isDigit f = ccd @ acd @ sub"
    using y by (simp add: f punct_not_digit)
qed

lemma roundtrip_fields:
  assumes shape: "dotDigits pattern =
        ''+'' @ replicate (length (showNat cc)) CHR ''.'' @ sep @
        (case ac of None \<Rightarrow> [] | Some a \<Rightarrow> ''('' @ replicate (length (showNat a)) CHR ''.'' @ '')'') @
        rest"
    and cc: "0 < cc"
    and ac: "\<forall>a. ac = Some a \<longrightarrow> 0 < a"
    and sep: "\<forall>x\<in>set sep. x \<notin> slots \<and> x \<noteq> CHR ''(''"
    and bare: "ac = None \<longrightarrow> sep \<noteq> [] \<and> CHR ''('' \<notin> set rest"
    and sub: "sub \<noteq> []" "\<forall>d\<in>set sub. isDigit d" "nslots rest = length sub"
  shows "countryCode (parsePhoneNumber (displayFormat (clean pattern (getRawValue
            (Obj \<lparr>countryCode = Some cc, areaCode = ac, phoneNumber = Some sub, isoCode = i\<rparr>))))
            cs pin) = Some cc \<and>
         areaCode (parsePhoneNumber (displayFormat (clean pattern (getRawValue
            (Obj \<lparr>countryCode = Some cc, areaCode = ac, phoneNumber = Some sub, isoCode = i\<rparr>))))
            cs pin) = ac \<and>
         phoneNumber (parsePhoneNumber (displayFormat (clean pattern (getRawValue
            (Obj \<lparr>countryCode = Some cc, areaCode = ac, phoneNumber = Some sub, isoCode = i\<rparr>))))
            cs pin) = Some sub"
proof -
  let ?ccd = "showNat cc"
  let ?acd = "case ac of None \<Rightarrow> [] | Some a \<Rightarrow> showNat a"
  let ?g = "if ?acd = [] then [] else ''('' @ ?acd @ '')''"
  let ?f = "displayFormat (clean pattern (?ccd @ ?acd @ sub))"
  have acd_Nil: "?acd = [] \<longleftrightarrow> ac = None"
    by (cases ac) (simp_all add: showNat_not_Nil)
  have acd_digits: "\<forall>d\<in>set ?acd. isDigit d"
    by (cases ac) (simp_all add: showNat_digits)
  have raw: "getRawValue (Obj \<lparr>countryCode = Some cc, areaCode = ac, phoneNumber = Some sub,
      isoCode = i\<rparr>) = ?ccd @ ?acd @ sub"
    using cc ac by (cases ac) simp_all
  have grp: "(case ac of None \<Rightarrow> [] | Some a \<Rightarrow> ''('' @ replicate (length (showNat a)) CHR ''.'' @ '')'') =
      (if ?acd = [] then [] else ''('' @ replicate (length ?acd) CHR ''.'' @ '')'')"
    by (cases ac) (simp_all add: showNat_not_Nil)
  have sep_slots: "\<forall>x\<in>set sep. x \<notin> slots" using sep by simp
  from formatted_shape [OF shape grp showNat_digits acd_digits sep_slots sub]
  obtain y where y: "?f = (''+'' @ ?ccd @ sep @ ?g) @ y" "filter isDigit y = sub"
      "set y \<subseteq> set sub \<union> set rest \<union> {CHR '')''}"
    by blast
  have "set sep \<subseteq> set (dotDigits pattern)" unfolding shape by auto
  with dotDigits_no_digit [of pattern] sep
  have sep': "\<forall>x\<in>set sep. \<not> isDigit x \<and> x \<noteq> CHR ''(''" by blast
  have "CHR ''('' \<notin> set sub" using sub(2) punct_not_digit(2) by blast
  with y(3) bare have bare': "?acd = [] \<longrightarrow> sep \<noteq> [] \<and> CHR ''('' \<notin> set y"
    by (auto simp: acd_Nil)
  note p = parse_formatted [OF y(1) showNat_not_Nil showNat_digits acd_digits sep' bare' y(2)]
  have c: "map_option parseInt (countryCodeMatch ?f) = Some cc"
    by (simp add: p(1) parseInt_plus_showNat)
  have a: "map_option parseInt (areaCodeMatch ?f) = ac"
  proof (cases ac)
    case None
    with p(2) show ?thesis by simp
  next
    case (Some n)
    with p(2) show ?thesis by (simp add: showNat_not_Nil parseInt_showNat)
  qed
  have pre: "phoneNumberPrefix (Some cc) ac = ?ccd @ ?acd"
    using ac by (cases ac) (simp_all add: phoneNumberPrefix_def)
  have "phoneNumberMatch ((?ccd @ ?acd)) ((?ccd @ ?acd) @ sub) = Some sub"
    using sub(1,2) by (rule phoneNumberMatch_rest)
  then have m: "phoneNumberMatch (phoneNumberPrefix (Some cc) ac) (filter isDigit ?f) = Some sub"
    by (simp add: pre p(3))
  show ?thesis
    unfolding raw by (simp add: parsePhoneNumber_def Let_def c a m)
qed

text \<open>
  Claim C5, as stated (for every complete number built from a country code, an area code
  and a subscriber number and formatted with the mask of its country, parsing returns the
  subscriber number), fails where the mask does not set the area code apart. The parser
  finds the area code only as a run of digits in parentheses: with a mask without
  parentheses, \<open>+44 .... ......\<close>, the number 44, 20, \<open>79460958\<close> is formatted as
  \<open>+44 2079 460958\<close> and parsed with the subscriber number \<open>2079460958\<close>. With the mask
  \<open>+1 (...) ...-....\<close> the number 1, 20, \<open>55551234\<close> fills every slot, and the parser
  returns the subscriber number \<open>5551234\<close>.
\<close>

theorem parse_roundtrip_counterexample:
  "displayFormat (clean ''+44 .... ......'' (getRawValue
     (Obj \<lparr>countryCode = Some 44, areaCode = Some 20, phoneNumber = Some ''79460958'',
           isoCode = Some ''gb''\<rparr>))) = ''+44 2079 460958'' \<and>
   phoneNumber (parsePhoneNumber ''+44 2079 460958''
     [\<lparr>iso = ''gb'', name = ''United Kingdom'', decorative = '''', dial = ''44'', mask = ''+44 .... ......''\<rparr>]
     (Some ''gb'')) = Some ''2079460958'' \<and>
   displayFormat (clean ''+1 (...) ...-....'' (getRawValue
     (Obj \<lparr>countryCode = Some 1, areaCode = Some 20, phoneNumber = Some ''55551234'',
           isoCode = Some ''us''\<rparr>))) = ''+1 (205) 555-1234'' \<and>
   phoneNumber (parsePhoneNumber ''+1 (205) 555-1234''
     [\<lparr>iso = ''us'', name = ''United States'', decorative = '''', dial = ''1'', mask = ''+1 (...) ...-....''\<rparr>]
     (Some ''us'')) = Some ''5551234''"
  by code_simp

text \<open>
  Claim C5, amended. Let the mask, with its digits read as slots, be a plus sign, as many
  slots as the country code has digits, separators that are neither slots nor opening
  parentheses, then, exactly when the number has an area code, a group in parentheses of
  as many slots as the area code has digits, and a rest with as many slots as the
  subscriber number has digits; without an area code there is at least one separator and
  no opening parenthesis in the rest. Then for a positive country code and area code (both
  below \<open>2 ^ 53\<close>) and a non-empty subscriber number of digits, parsing the formatted number
  gives back the country code, the area code and the subscriber number, with any list of
  candidates and any pin.
\<close>

theorem parse_roundtrip:
  "dotDigits pattern =
      ''+'' @ replicate (length (showNat cc)) CHR ''.'' @ sep @
      (case ac of None \<Rightarrow> [] | Some a \<Rightarrow> ''('' @ replicate (length (showNat a)) CHR ''.'' @ '')'') @
      rest \<and>
   0 < cc \<and> cc < 2 ^ 53 \<and> (\<forall>a. ac = Some a \<longrightarrow> 0 < a \<and> a < 2 ^ 53) \<and>
   (\<forall>x\<in>set sep. x \<notin> slots \<and> x \<noteq> CHR ''('') \<and>
   (ac = None \<longrightarrow> sep \<noteq> [] \<and> CHR ''('' \<notin> set rest) \<and>
   sub \<noteq> [] \<and> (\<forall>d\<in>set sub. isDigit d) \<and> nslots rest = length sub \<longrightarrow>
   countryCode (parsePhoneNumber (displayFormat (clean pattern (getRawValue
      (Obj \<lparr>countryCode = Some cc, areaCode = ac, phoneNumber = Some sub, isoCode = i\<rparr>))))
      cs pin) = Some cc \<and>
   areaCode (parsePhoneNumber (displayFormat (clean pattern (getRawValue
      (Obj \<lparr>countryCode = Some cc, areaCode = ac, phoneNumber = Some sub, isoCode = i\<rparr>))))
      cs pin) = ac \<and>
   phoneNumber (parsePhoneNumber (displayFormat (clean pattern (getRawValue
      (Obj \<lparr>countryCode = Some cc, areaCode = ac, phoneNumber = Some sub, isoCode = i\<rparr>))))
      cs pin) = Some sub"
proof (intro impI, elim conjE)
  assume "dotDigits pattern =
      ''+'' @ replicate (length (showNat cc)) CHR ''.'' @ sep @
      (case ac of None \<Rightarrow> [] | Some a \<Rightarrow> ''('' @ replicate (length (showNat a)) CHR ''.'' @ '')'') @
      rest"
    and "0 < cc"
    and "\<forall>a. ac = Some a \<longrightarrow> 0 < a \<and> a < 2 ^ 53"
    and "\<forall>x\<in>set sep. x \<notin> slots \<and> x \<noteq> CHR ''(''"
    and "ac = None \<longrightarrow> sep \<noteq> [] \<and> CHR ''('' \<notin> set rest"
    and "sub \<noteq> []" "\<forall>d\<in>set sub. isDigit d" "nslots rest = length sub"
  moreover from this(3) have "\<forall>a. ac = Some a \<longrightarrow> 0 < a" by blast
  ultimately show "countryCode (parsePhoneNumber (displayFormat (clean pattern (getRawValue
      (Obj \<lparr>countryCode = Some cc, areaCode = ac, phoneNumber = Some sub, isoCode = i\<rparr>))))
      cs pin) = Some cc \<and>
   areaCode (parsePhoneNumber (displayFormat (clean pattern (getRawValue
      (Obj \<lparr>countryCode = Some cc, areaCode = ac, phoneNumber = Some sub, isoCode = i\<rparr>))))
      cs pin) = ac \<and>
   phoneNumber (parsePhoneNumber (displayFormat (clean pattern (getRawValue
      (Obj \<lparr>countryCode = Some cc, areaCode = ac, phoneNumber = Some sub, isoCode = i\<rparr>))))
      cs pin) = Some sub"
    by (intro roundtrip_fields)
qed

theorem parse_roundtrip_witness:
  "displayFormat (clean ''+1 (...) ...-....'' (getRawValue
      (Obj \<lparr>countryCode = Some 1, areaCode = Some 202, phoneNumber = Some ''5551234'',
            isoCode = Some ''us''\<rparr>))) = ''+1 (202) 555-1234'' \<and>
   phoneNumber (parsePhoneNumber (displayFormat (clean ''+1 (...) ...-....'' (getRawValue
      (Obj \<lparr>countryCode = Some 1, areaCode = Some 202, phoneNumber = Some ''5551234'',
            isoCode = Some ''us''\<rparr>))))
      [\<lparr>iso = ''us'', name = ''United States'', decorative = '''', dial = ''1'', mask = ''+1 (...) ...-....''\<rparr>]
      (Some ''us'')) = Some ''5551234''"
proof -
  have shape: "dotDigits ''+1 (...) ...-....'' =
      ''+'' @ replicate (length (showNat 1)) CHR ''.'' @ '' '' @
      (case Some 202 of None \<Rightarrow> [] | Some a \<Rightarrow> ''('' @ replicate (length (showNat a)) CHR ''.'' @ '')'') @
      '' ...-....''"
    by code_simp
  have nums: "(0::nat) < 1 \<and> (1::nat) < 2 ^ 53 \<and> (\<forall>a. Some 202 = Some a \<longrightarrow> 0 < a \<and> a < (2::nat) ^ 53)"
    by simp
  have sep: "\<forall>x\<in>set '' ''. x \<notin> slots \<and> x \<noteq> CHR ''(''"
    by (simp add: slots_def)
  have bare: "Some (202::nat) = None \<longrightarrow> '' '' \<noteq> [] \<and> CHR ''('' \<notin> set '' ...-....''"
    by simp
  have sub: "''5551234'' \<noteq> [] \<and> (\<forall>d\<in>set ''5551234''. isDigit d) \<and>
      nslots '' ...-....'' = length ''5551234''"
    by (simp add: isDigit_def nslots_def slots_def)
  from parse_roundtrip [of "''+1 (...) ...-....''" 1 "'' ''" "Some 202" "'' ...-....''" "''5551234''"
      "Some ''us''"
      "[\<lparr>iso = ''us'', name = ''United States'', decorative = '''', dial = ''1'', mask = ''+1 (...) ...-....''\<rparr>]"
      "Some ''us''"]
    shape nums sep bare sub
  have "phoneNumber (parsePhoneNumber (displayFormat (clean ''+1 (...) ...-....'' (getRawValue
      (Obj \<lparr>countryCode = Some 1, areaCode = Some 202, phoneNumber = Some ''5551234'',
            isoCode = Some ''us''\<rparr>))))
      [\<lparr>iso = ''us'', name = ''United States'', decorative = '''', dial = ''1'', mask = ''+1 (...) ...-....''\<rparr>]
      (Some ''us'')) = Some ''5551234''"
    by blast
  moreover have "displayFormat (clean ''+1 (...) ...-....'' (getRawValue
      (Obj \<lparr>countryCode = Some 1, areaCode = Some 202, phoneNumber = Some ''5551234'',
            isoCode = Some ''us''\<rparr>))) = ''+1 (202) 555-1234''"
    by code_simp
  ultimately show ?thesis by blast
qed

end
